theory Spec2Isabelle
  imports Main "HOL-Library.Word"
begin

unbundle bit_operations_syntax

section \<open>The heap allocator of \<open>src/heapAllocator/alloc.c\<close>\<close>

text \<open>
  The allocator keeps one header word (\<open>meta_t\<close>, a single \<open>size_t\<close>) in front of
  every block.  Bit 63 of the word is the free mark, the other bits are the block's total
  size counted in units of \<open>ALIGNMENT\<close> bytes.  Sizes and pointers are 64-bit machine
  words, so every \<open>+\<close>, \<open>-\<close> and \<open>*\<close> below wraps as in the C code.
\<close>

type_synonym size_t = "64 word"
type_synonym ptr = "64 word"

definition PAGE_SIZE :: size_t where
  "PAGE_SIZE = 4096"

definition ALIGNMENT :: size_t where
  "ALIGNMENT = 8"

definition FLAG_BIT :: nat where
  "FLAG_BIT = 63"

definition sizeof_meta :: size_t where
  "sizeof_meta = 8"

definition NULL :: ptr where
  "NULL = 0"

text \<open>\<open>1UL << FLAG_BIT\<close>\<close>

definition flag_mask :: size_t where
  "flag_mask = push_bit FLAG_BIT 1"

subsection \<open>Descriptor codec on the header word\<close>

text \<open>
  The functions of the section ``Descriptor management'' of \<open>alloc.c\<close>, first as
  functions of the header word alone.
\<close>

definition check_free_w :: "size_t \<Rightarrow> bool" where
  "check_free_w d = (d AND flag_mask \<noteq> 0)"

definition set_free_w :: "size_t \<Rightarrow> size_t" where
  "set_free_w d = d OR flag_mask"

definition set_inuse_w :: "size_t \<Rightarrow> size_t" where
  "set_inuse_w d = d AND NOT flag_mask"

definition set_descriptor_w :: "size_t \<Rightarrow> size_t" where
  "set_descriptor_w total_size = set_free_w (total_size div ALIGNMENT)"

text \<open>The masked magnitude \<open>meta->descriptor & ~(1UL << FLAG_BIT)\<close>.\<close>

definition offset_w :: "size_t \<Rightarrow> size_t" where
  "offset_w d = d AND NOT flag_mask"

text \<open>
  \<open>get_next_meta\<close> returns \<open>meta + offset\<close>; the pointer is a \<open>meta_t *\<close>, so the
  address advances by \<open>offset * sizeof(meta_t)\<close> bytes.
\<close>

definition get_next_meta_w :: "ptr \<Rightarrow> size_t \<Rightarrow> ptr" where
  "get_next_meta_w meta d = meta + offset_w d * sizeof_meta"

definition get_data_size_w :: "size_t \<Rightarrow> size_t" where
  "get_data_size_w d =
     (let offset = offset_w d in if offset = 8 then 0 else offset * 8 - 8)"

definition align :: "size_t \<Rightarrow> size_t" where
  "align sz =
     (if sz = 0 then ALIGNMENT
      else if sz mod ALIGNMENT \<noteq> 0 then sz + ALIGNMENT - sz mod ALIGNMENT
      else sz)"

subsection \<open>Process state, memory and the heap source\<close>

text \<open>
  The state holds the globals of \<open>alloc.c\<close> (\<open>base_block\<close>, \<open>first_free\<close>,
  \<open>recent_freed\<close>), the globals of the heap source \<open>test_framework/intercept.c\<close>
  (\<open>heap\<close>, \<open>cur_brk\<close>, \<open>max_brk_size\<close>, the two call counters), the memory, and the
  lines written by \<open>perror\<close>.  Memory is a store of 64-bit words at byte addresses; all
  addresses the allocator forms are \<open>heap\<close> plus a multiple of 8.  The heap source
  reserves the heap with \<open>PROT_NONE\<close> and opens only the pages below \<open>cur_brk\<close>, so a
  load or store outside \<open>[heap, cur_brk)\<close> (the null pointer included) ends the process
  with a segmentation fault.
\<close>

record state =
  mem :: "ptr \<Rightarrow> 64 word"
  heap :: ptr
  cur_brk :: ptr
  max_brk_size :: size_t
  num_brk_increase_calls :: nat
  num_brk_decrease_calls :: nat
  base_block :: ptr
  first_free :: ptr
  recent_freed :: "ptr list"
  stderr_log :: "string list"

text \<open>
  The ways the process ends: the two assertions of \<open>do_brk\<close> (each prints its message
  and calls \<open>exit(1)\<close>), and a fault on a memory access.
\<close>

datatype fatal = BrkBeforeHeapStart | BrkBeyondMaxHeapSize | SegFault

definition accessible :: "state \<Rightarrow> ptr \<Rightarrow> bool" where
  "accessible s a = (unat (heap s) \<le> unat a \<and> unat a + 8 \<le> unat (cur_brk s))"

definition load :: "state \<Rightarrow> ptr \<Rightarrow> fatal + 64 word" where
  "load s a = (if accessible s a then Inr (mem s a) else Inl SegFault)"

definition store :: "ptr \<Rightarrow> 64 word \<Rightarrow> state \<Rightarrow> fatal + state" where
  "store a v s = (if accessible s a then Inr (s\<lparr>mem := (mem s)(a := v)\<rparr>) else Inl SegFault)"

definition bindE :: "'e + 'a \<Rightarrow> ('a \<Rightarrow> 'e + 'b) \<Rightarrow> 'e + 'b" where
  "bindE m f = (case m of Inl e \<Rightarrow> Inl e | Inr x \<Rightarrow> f x)"

definition perror :: "string \<Rightarrow> state \<Rightarrow> state" where
  "perror msg s = s\<lparr>stderr_log := stderr_log s @ [msg]\<rparr>"

text \<open>
  \<open>do_brk\<close> of \<open>intercept.c\<close>.  A growing break counts the call and poisons the new
  bytes with \<open>0xad\<close>; a shrinking break counts the call (its further assertion is about
  the test harness's own list of live buffers, which is not part of this state).
\<close>

definition poison :: "64 word" where
  "poison = 0xadadadadadadadad"

definition do_brk :: "ptr \<Rightarrow> state \<Rightarrow> fatal + state" where
  "do_brk addr s =
     (if addr < heap s then Inl BrkBeforeHeapStart
      else if unat (heap s) + unat (max_brk_size s) < unat addr then Inl BrkBeyondMaxHeapSize
      else if addr = cur_brk s then Inr s
      else if cur_brk s < addr then
        Inr (s\<lparr>num_brk_increase_calls := num_brk_increase_calls s + 1,
               mem := (\<lambda>a. if cur_brk s \<le> a \<and> a < addr then poison else mem s a),
               cur_brk := addr\<rparr>)
      else
        Inr (s\<lparr>num_brk_decrease_calls := num_brk_decrease_calls s + 1,
               cur_brk := addr\<rparr>))"

text \<open>\<open>sbrk(increment)\<close> returns the old break.\<close>

definition sbrk :: "size_t \<Rightarrow> state \<Rightarrow> fatal + ptr \<times> state" where
  "sbrk increment s =
     bindE (do_brk (cur_brk s + increment) s) (\<lambda>s'. Inr (cur_brk s, s'))"

subsection \<open>Descriptor management on memory\<close>

definition check_free :: "ptr \<Rightarrow> state \<Rightarrow> fatal + bool" where
  "check_free meta s = bindE (load s meta) (\<lambda>d. Inr (check_free_w d))"

definition set_free :: "ptr \<Rightarrow> state \<Rightarrow> fatal + state" where
  "set_free meta s = bindE (load s meta) (\<lambda>d. store meta (set_free_w d) s)"

definition set_inuse :: "ptr \<Rightarrow> state \<Rightarrow> fatal + state" where
  "set_inuse meta s = bindE (load s meta) (\<lambda>d. store meta (set_inuse_w d) s)"

definition set_descriptor :: "ptr \<Rightarrow> size_t \<Rightarrow> state \<Rightarrow> fatal + state" where
  "set_descriptor meta total_size s =
     bindE (store meta (total_size div ALIGNMENT) s) (set_free meta)"

definition get_next_meta :: "ptr \<Rightarrow> state \<Rightarrow> fatal + ptr" where
  "get_next_meta meta s = bindE (load s meta) (\<lambda>d. Inr (get_next_meta_w meta d))"

definition get_data_size :: "ptr \<Rightarrow> state \<Rightarrow> fatal + size_t" where
  "get_data_size meta s = bindE (load s meta) (\<lambda>d. Inr (get_data_size_w d))"

subsection \<open>Heap growth and splitting\<close>

text \<open>The local \<open>page_request\<close> of \<open>expand_heap\<close>.\<close>

definition page_request :: "size_t \<Rightarrow> size_t" where
  "page_request aligned_size = (aligned_size + sizeof_meta) div PAGE_SIZE + 1"

definition expand_heap :: "size_t \<Rightarrow> state \<Rightarrow> fatal + ptr \<times> state" where
  "expand_heap aligned_size s =
     bindE (sbrk (page_request aligned_size * PAGE_SIZE) s) (\<lambda>(result, s1).
     bindE (set_descriptor result (page_request aligned_size * PAGE_SIZE) s1) (\<lambda>s2.
     bindE (set_free result s2) (\<lambda>s3.
     Inr (result, s3\<lparr>first_free := result\<rparr>))))"

definition split_block :: "ptr \<Rightarrow> size_t \<Rightarrow> state \<Rightarrow> fatal + ptr \<times> state" where
  "split_block left aligned_size s =
     bindE (get_data_size left s) (\<lambda>total_size.
     bindE (set_descriptor left (aligned_size + sizeof_meta) s) (\<lambda>s1.
     bindE (set_free left s1) (\<lambda>s2.
     bindE (get_next_meta left s2) (\<lambda>right.
     bindE (set_descriptor right (total_size - aligned_size) s2) (\<lambda>s3.
     bindE (set_free right s3) (\<lambda>s4.
     Inr (left, s4\<lparr>first_free := right\<rparr>)))))))"

subsection \<open>The free block locator \<open>get_free_block\<close>\<close>

text \<open>
  The loop over the five slots of \<open>recent_freed\<close>, as a recursion over the slot indices
  still to visit.  \<open>Some result\<close> is the jump to \<open>block_split\<close>, \<open>None\<close> is falling
  out of the loop.
\<close>

fun check_recent :: "size_t \<Rightarrow> nat list \<Rightarrow> state \<Rightarrow> fatal + ptr option \<times> state" where
  "check_recent aligned_size [] s = Inr (None, s)"
| "check_recent aligned_size (i # is) s =
     (if recent_freed s ! i = NULL then check_recent aligned_size is s
      else bindE (get_data_size (recent_freed s ! i) s) (\<lambda>d.
        if aligned_size \<le> d
        then Inr (Some (recent_freed s ! i), s\<lparr>recent_freed := (recent_freed s)[i := NULL]\<rparr>)
        else check_recent aligned_size is s))"

text \<open>
  The \<open>while (true)\<close> first-fit loop.  It may run forever (a header with magnitude 0
  sends it to the same block again), so it is a partial function: \<open>None\<close> is not
  returning.  \<open>Some (Inr (None, s))\<close> is the jump to \<open>heap_expand\<close>.
\<close>

partial_function (option) first_fit ::
  "size_t \<Rightarrow> ptr \<Rightarrow> state \<Rightarrow> (fatal + ptr option \<times> state) option" where
  "first_fit aligned_size result s =
     (case sbrk 0 s of
        Inl e \<Rightarrow> Some (Inl e)
      | Inr (brk, s1) \<Rightarrow>
          if result = brk then Some (Inr (None, s1))
          else (case check_free result s1 of
             Inl e \<Rightarrow> Some (Inl e)
           | Inr fr \<Rightarrow>
               if \<not> fr then
                 (case get_next_meta result s1 of
                    Inl e \<Rightarrow> Some (Inl e)
                  | Inr n \<Rightarrow> first_fit aligned_size n s1)
               else (case get_data_size result s1 of
                  Inl e \<Rightarrow> Some (Inl e)
                | Inr d \<Rightarrow>
                    if aligned_size \<le> d then Some (Inr (Some result, s1))
                    else (case get_next_meta result s1 of
                       Inl e \<Rightarrow> Some (Inl e)
                     | Inr n \<Rightarrow> first_fit aligned_size n s1))))"

declare first_fit.simps [code]

text \<open>The code after the label \<open>block_split\<close>.\<close>

definition block_split :: "ptr \<Rightarrow> size_t \<Rightarrow> state \<Rightarrow> fatal + ptr \<times> state" where
  "block_split result aligned_size s =
     bindE (get_data_size result s) (\<lambda>d.
       if sizeof_meta + ALIGNMENT < d - aligned_size
       then split_block result aligned_size s
       else Inr (result, s))"

text \<open>The code after the label \<open>heap_expand\<close>, which falls through to \<open>block_split\<close>.\<close>

definition heap_expand :: "size_t \<Rightarrow> state \<Rightarrow> fatal + ptr \<times> state" where
  "heap_expand aligned_size s =
     bindE (expand_heap aligned_size s) (\<lambda>(result, s1).
       block_split result aligned_size
         (if base_block s1 = NULL then s1\<lparr>base_block := result\<rparr> else s1))"

definition get_free_block :: "size_t \<Rightarrow> state \<Rightarrow> (fatal + ptr \<times> state) option" where
  "get_free_block aligned_size s =
     (if base_block s = NULL then Some (heap_expand aligned_size s)
      else (case check_recent aligned_size [0, 1, 2, 3, 4] s of
         Inl e \<Rightarrow> Some (Inl e)
       | Inr (Some result, s1) \<Rightarrow> Some (block_split result aligned_size s1)
       | Inr (None, s1) \<Rightarrow>
           (case first_fit aligned_size (first_free s1) s1 of
              None \<Rightarrow> None
            | Some (Inl e) \<Rightarrow> Some (Inl e)
            | Some (Inr (Some result, s2)) \<Rightarrow> Some (block_split result aligned_size s2)
            | Some (Inr (None, s2)) \<Rightarrow> Some (heap_expand aligned_size s2))))"

subsection \<open>The public operations\<close>

definition mymalloc :: "size_t \<Rightarrow> state \<Rightarrow> (fatal + ptr \<times> state) option" where
  "mymalloc sz s =
     (if sz = 0 then Some (Inr (NULL, s))
      else (case get_free_block (align sz) s of
         None \<Rightarrow> None
       | Some (Inl e) \<Rightarrow> Some (Inl e)
       | Some (Inr (result, s1)) \<Rightarrow>
           Some (bindE (set_inuse result s1) (\<lambda>s2. Inr (result + sizeof_meta, s2)))))"

text \<open>
  The loop \<open>for (int i = 4; i > 0; --i) recent_freed[i] = recent_freed[i - 1]\<close>;
  the argument counts \<open>i\<close> down.
\<close>

fun shift_recent :: "nat \<Rightarrow> ptr list \<Rightarrow> ptr list" where
  "shift_recent 0 r = r"
| "shift_recent (Suc i) r = shift_recent i (r[Suc i := r ! i])"

text \<open>
  The \<open>while (curr != sbrk(0))\<close> loop of \<open>myfree\<close>.  It returns the final \<open>curr\<close> (here \<open>cur\<close>),
  which the code compares with the break once more after the loop.  The test
  \<open>curr + 1 == ptr && !check_free(curr)\<close> reads the header only when the first
  conjunct holds.
\<close>

partial_function (option) free_loop ::
  "ptr \<Rightarrow> ptr \<Rightarrow> state \<Rightarrow> (fatal + ptr \<times> state) option" where
  "free_loop p cur s =
     (case sbrk 0 s of
        Inl e \<Rightarrow> Some (Inl e)
      | Inr (brk, s1) \<Rightarrow>
          if cur = brk then Some (Inr (cur, s1))
          else (case (if cur + sizeof_meta = p
                      then bindE (check_free cur s1) (\<lambda>fr. Inr (\<not> fr))
                      else Inr False) of
             Inl e \<Rightarrow> Some (Inl e)
           | Inr hit \<Rightarrow>
               if hit then
                 Some (bindE (set_free cur s1) (\<lambda>s2.
                   Inr (cur,
                     s2\<lparr>first_free :=
                          (if first_free s2 = NULL \<or> cur < first_free s2 then cur
                           else first_free s2),
                        recent_freed := (shift_recent 4 (recent_freed s2))[0 := cur]\<rparr>)))
               else
                 (case get_next_meta cur s1 of
                    Inl e \<Rightarrow> Some (Inl e)
                  | Inr n \<Rightarrow> free_loop p n s1)))"

declare free_loop.simps [code]

text \<open>
  In \<open>!(uintptr_t) ptr % ALIGNMENT != 0\<close> the negation binds first: the tested
  number is 1 for a null pointer and 0 otherwise.
\<close>

definition myfree :: "ptr \<Rightarrow> state \<Rightarrow> (fatal + state) option" where
  "myfree p s =
     (if p = NULL then Some (Inr s)
      else
        (let s1 = (if base_block s = NULL
                   then perror ''No memory has been allocated yet'' s else s);
             s2 = (if (if p = 0 then 1 else 0 :: size_t) mod ALIGNMENT \<noteq> 0
                   then perror ''Bad alignment, not a possible block'' s1 else s1)
         in (case free_loop p (base_block s2) s2 of
               None \<Rightarrow> None
             | Some (Inl e) \<Rightarrow> Some (Inl e)
             | Some (Inr (cur, s3)) \<Rightarrow>
                 Some (bindE (sbrk 0 s3) (\<lambda>(brk, s4).
                   Inr (if cur = brk then perror ''can find the block'' s4 else s4))))))"

text \<open>
  \<open>memcpy\<close> of \<open>n\<close> bytes; \<open>n\<close> is a data size, a multiple of 8, so whole words
  are copied, in ascending order.
\<close>

fun memcpy_words :: "nat \<Rightarrow> ptr \<Rightarrow> ptr \<Rightarrow> state \<Rightarrow> fatal + state" where
  "memcpy_words 0 dst src s = Inr s"
| "memcpy_words (Suc k) dst src s =
     bindE (load s src) (\<lambda>v.
     bindE (store dst v s) (memcpy_words k (dst + 8) (src + 8)))"

definition memcpy :: "ptr \<Rightarrow> ptr \<Rightarrow> size_t \<Rightarrow> state \<Rightarrow> fatal + state" where
  "memcpy dst src n s = memcpy_words (unat n div 8) dst src s"

definition myrealloc :: "ptr \<Rightarrow> size_t \<Rightarrow> state \<Rightarrow> (fatal + ptr \<times> state) option" where
  "myrealloc p sz s =
     (if p = NULL then mymalloc sz s
      else if sz = 0 then
        (case myfree p s of
           None \<Rightarrow> None
         | Some (Inl e) \<Rightarrow> Some (Inl e)
         | Some (Inr s1) \<Rightarrow> Some (Inr (NULL, s1)))
      else if base_block s = NULL then
        Some (Inr (NULL, perror ''no memory has yet been allocated'' s))
      else
        (let meta = p - sizeof_meta; aligned_size = align sz in
         case get_data_size meta s of
           Inl e \<Rightarrow> Some (Inl e)
         | Inr d \<Rightarrow>
             if d < aligned_size then
               (case mymalloc aligned_size s of
                  None \<Rightarrow> None
                | Some (Inl e) \<Rightarrow> Some (Inl e)
                | Some (Inr (new_ptr, s1)) \<Rightarrow>
                    if new_ptr = NULL then Some (Inr (NULL, s1))
                    else (case bindE (get_data_size meta s1) (\<lambda>n. memcpy new_ptr p n s1) of
                       Inl e \<Rightarrow> Some (Inl e)
                     | Inr s2 \<Rightarrow>
                         (case myfree p s2 of
                            None \<Rightarrow> None
                          | Some (Inl e) \<Rightarrow> Some (Inl e)
                          | Some (Inr s3) \<Rightarrow> Some (Inr (new_ptr, s3)))))
             else if sizeof_meta + ALIGNMENT < d - aligned_size then
               Some (bindE (split_block meta aligned_size s) (\<lambda>(l, s1).
                 Inr (meta + sizeof_meta, s1)))
             else Some (Inr (meta + sizeof_meta, s))))"

subsection \<open>The fresh process and drivers\<close>

text \<open>
  Before the first call nothing is allocated: the globals of \<open>alloc.c\<close> are null, the
  break is at the start of the reserved heap \<open>H\<close>, of which at most \<open>M\<close> bytes may be
  opened.  The memory content \<open>m0\<close> is arbitrary.
\<close>

definition init_state :: "(ptr \<Rightarrow> 64 word) \<Rightarrow> ptr \<Rightarrow> size_t \<Rightarrow> state" where
  "init_state m0 H M =
     \<lparr>mem = m0, heap = H, cur_brk = H, max_brk_size = M,
      num_brk_increase_calls = 0, num_brk_decrease_calls = 0,
      base_block = NULL, first_free = NULL,
      recent_freed = [NULL, NULL, NULL, NULL, NULL], stderr_log = []\<rparr>"

text \<open>
  A client program is a list of calls.  \<open>Free i\<close> and \<open>Realloc i n\<close> pass the pointer
  that the \<open>i\<close>-th allocating call returned; \<open>run\<close> collects the returned pointers.
\<close>

datatype call = Malloc size_t | Free nat | Realloc nat size_t

fun run :: "call list \<Rightarrow> ptr list \<Rightarrow> state \<Rightarrow> (fatal + ptr list \<times> state) option" where
  "run [] ps s = Some (Inr (ps, s))"
| "run (Malloc n # cs) ps s =
     (case mymalloc n s of
        None \<Rightarrow> None
      | Some (Inl e) \<Rightarrow> Some (Inl e)
      | Some (Inr (p, s')) \<Rightarrow> run cs (ps @ [p]) s')"
| "run (Free i # cs) ps s =
     (case myfree (ps ! i) s of
        None \<Rightarrow> None
      | Some (Inl e) \<Rightarrow> Some (Inl e)
      | Some (Inr s') \<Rightarrow> run cs ps s')"
| "run (Realloc i n # cs) ps s =
     (case myrealloc (ps ! i) n s of
        None \<Rightarrow> None
      | Some (Inl e) \<Rightarrow> Some (Inl e)
      | Some (Inr (p, s')) \<Rightarrow> run cs (ps @ [p]) s')"

subsection \<open>The block chain\<close>

text \<open>
  \<open>chain m a bs b\<close>: following \<open>get_next_meta\<close> from \<open>a\<close> visits exactly the headers
  \<open>bs\<close> and arrives at \<open>b\<close>; every block has a magnitude of at least one unit and ends
  at or before \<open>b\<close>, so the blocks tile \<open>[a, b)\<close> without gap or overlap.
\<close>

primrec chain :: "(ptr \<Rightarrow> 64 word) \<Rightarrow> ptr \<Rightarrow> ptr list \<Rightarrow> ptr \<Rightarrow> bool" where
  "chain m a [] b \<longleftrightarrow> a = b"
| "chain m a (x # xs) b \<longleftrightarrow>
     x = a \<and> offset_w (m a) \<noteq> 0 \<and> unat a + 8 * unat (offset_w (m a)) \<le> unat b \<and>
     chain m (get_next_meta_w a (m a)) xs b"

text \<open>The same walk as a function that computes the list of headers, if there is one.\<close>

function blocks :: "(ptr \<Rightarrow> 64 word) \<Rightarrow> ptr \<Rightarrow> ptr \<Rightarrow> ptr list option" where
  "blocks m a b =
     (if a = b then Some []
      else if offset_w (m a) = 0 \<or> unat b < unat a + 8 * unat (offset_w (m a)) then None
      else map_option ((#) a) (blocks m (get_next_meta_w a (m a)) b))"
  by pat_completeness auto
termination
proof (relation "measure (\<lambda>(m, a, b). unat b - unat a)")
  show "wf (measure (\<lambda>(m :: ptr \<Rightarrow> 64 word, a :: ptr, b :: ptr). unat b - unat a))"
    by simp
next
  fix m :: "ptr \<Rightarrow> 64 word" and a b :: ptr
  assume ne: "a \<noteq> b"
    and ok: "\<not> (offset_w (m a) = 0 \<or> unat b < unat a + 8 * unat (offset_w (m a)))"
  let ?u = "offset_w (m a)"
  have b: "unat b < 2 ^ 64"
    using unsigned_less [of b, where 'a = nat] by simp
  have pos: "0 < unat ?u"
    using ok by (simp add: unat_gt_0)
  have mul: "unat (?u * 8) = unat ?u * 8"
    using ok b by (simp add: unat_mult_lem [THEN iffD1])
  have "unat (a + ?u * 8) = unat a + unat ?u * 8"
    using ok b mul by (simp add: unat_add_lem [THEN iffD1])
  moreover have "unat a + unat ?u * 8 \<le> unat b" and "unat a < unat b"
    using ok pos by arith+
  ultimately show "((m, get_next_meta_w a (m a), b), (m, a, b))
      \<in> measure (\<lambda>(m, a, b). unat b - unat a)"
    using pos by (simp add: get_next_meta_w_def sizeof_meta_def)
qed

declare blocks.simps [simp del]

text \<open>The bytes a block spans according to its header.\<close>

definition block_bytes :: "(ptr \<Rightarrow> 64 word) \<Rightarrow> ptr \<Rightarrow> nat" where
  "block_bytes m x = 8 * unat (offset_w (m x))"

subsection \<open>The allocator invariant and the reachable states\<close>

text \<open>
  The heap source never hands out the null page, and the break stays within the reserved
  heap.  The blocks tile the opened heap from its start to the break.  Before the first
  allocation there is no block and the cache is empty; afterwards \<open>base_block\<close> is the
  start of the heap, and \<open>first_free\<close> and every used slot of \<open>recent_freed\<close> point at
  block headers.
\<close>

definition heap_inv :: "state \<Rightarrow> bool" where
  "heap_inv s \<longleftrightarrow>
     heap s \<noteq> 0 \<and> unat (cur_brk s) \<le> unat (heap s) + unat (max_brk_size s) \<and>
     length (recent_freed s) = 5 \<and>
     (case blocks (mem s) (heap s) (cur_brk s) of
        None \<Rightarrow> False
      | Some bs \<Rightarrow>
          if base_block s = NULL then bs = [] \<and> (\<forall>r\<in>set (recent_freed s). r = NULL)
          else base_block s = heap s \<and> bs \<noteq> [] \<and> first_free s \<in> set bs \<and>
               (\<forall>r\<in>set (recent_freed s). r = NULL \<or> r \<in> set bs))"

text \<open>The same invariant, for a given list of block headers.\<close>

definition wf_heap :: "state \<Rightarrow> ptr list \<Rightarrow> bool" where
  "wf_heap s bs \<longleftrightarrow>
     heap s \<noteq> 0 \<and> unat (cur_brk s) \<le> unat (heap s) + unat (max_brk_size s) \<and>
     length (recent_freed s) = 5 \<and> chain (mem s) (heap s) bs (cur_brk s) \<and>
     (if base_block s = NULL then bs = [] \<and> (\<forall>r\<in>set (recent_freed s). r = NULL)
      else base_block s = heap s \<and> bs \<noteq> [] \<and> first_free s \<in> set bs \<and>
           (\<forall>r\<in>set (recent_freed s). r = NULL \<or> r \<in> set bs))"

text \<open>
  The states a client can bring the allocator into: it starts a fresh process (the heap
  source reserves the heap at a page-aligned, non-null address) and calls \<open>mymalloc\<close>
  and \<open>myfree\<close> with any arguments, and \<open>myrealloc\<close> with a null pointer or the data
  pointer of a block.
\<close>

inductive reachable :: "state \<Rightarrow> bool" where
  fresh: "H \<noteq> 0 \<Longrightarrow> unat H mod 4096 = 0 \<Longrightarrow> reachable (init_state m0 H M)"
| malloc: "reachable s \<Longrightarrow> mymalloc sz s = Some (Inr (p, s')) \<Longrightarrow> reachable s'"
| free: "reachable s \<Longrightarrow> myfree p s = Some (Inr s') \<Longrightarrow> reachable s'"
| realloc: "reachable s \<Longrightarrow> blocks (mem s) (heap s) (cur_brk s) = Some bs \<Longrightarrow>
     p = NULL \<or> p - sizeof_meta \<in> set bs \<Longrightarrow>
     myrealloc p sz s = Some (Inr (q, s')) \<Longrightarrow> reachable s'"

text \<open>
  \<open>growth_path aligned_size s\<close> is \<open>Some s'\<close> when \<open>get_free_block\<close> arrives at the
  label \<open>heap_expand\<close> (in state \<open>s'\<close>): either nothing was allocated yet, or neither the
  cache nor the first-fit scan found a block.
\<close>

definition growth_path :: "size_t \<Rightarrow> state \<Rightarrow> state option" where
  "growth_path aligned_size s =
     (if base_block s = NULL then Some s
      else (case check_recent aligned_size [0, 1, 2, 3, 4] s of
         Inr (None, s1) \<Rightarrow>
           (case first_fit aligned_size (first_free s1) s1 of
              Some (Inr (None, s2)) \<Rightarrow> Some s2
            | _ \<Rightarrow> None)
       | _ \<Rightarrow> None))"

text \<open>
  The number of pages as the specification words it: the minimal number of whole pages
  that cover \<open>min_bytes\<close> plus one header, \<open>ceil((min_bytes + header_size) / page_size)\<close>.
\<close>

definition spec_pages :: "nat \<Rightarrow> nat" where
  "spec_pages min_bytes = (min_bytes + 8 + 4095) div 4096"

text \<open>
  The client of the LIFO-reuse property: five allocations of one size, released in the
  order 0, 4, 3, 1, 2, then five more allocations of that size.
\<close>

definition lifo_calls :: "size_t \<Rightarrow> call list" where
  "lifo_calls sz =
     [Malloc sz, Malloc sz, Malloc sz, Malloc sz, Malloc sz,
      Free 0, Free 4, Free 3, Free 1, Free 2,
      Malloc sz, Malloc sz, Malloc sz, Malloc sz, Malloc sz]"

text \<open>
  An example state: the process once the heap source has opened the first page at
  \<open>0x10000\<close> and the page is a single block with the header word \<open>d\<close>.
\<close>

definition page_state :: "64 word \<Rightarrow> state" where
  "page_state d =
     \<lparr>mem = (\<lambda>_. poison)(0x10000 := d), heap = 0x10000, cur_brk = 0x11000,
      max_brk_size = 0x8000000,
      num_brk_increase_calls = 1, num_brk_decrease_calls = 0,
      base_block = 0x10000, first_free = 0x10000,
      recent_freed = [NULL, NULL, NULL, NULL, NULL], stderr_log = []\<rparr>"

text \<open>
  The shape of the state while a fresh process only allocates small blocks: the cache
  is empty and the marker points at a free block that ends at the break.
\<close>

definition tail_free :: "state \<Rightarrow> bool" where
  "tail_free s \<longleftrightarrow>
     base_block s \<noteq> NULL \<and> recent_freed s = [NULL, NULL, NULL, NULL, NULL] \<and>
     check_free_w (mem s (first_free s)) \<and>
     unat (heap s) \<le> unat (first_free s) \<and>
     unat (first_free s) + 8 * unat (offset_w (mem s (first_free s))) = unat (cur_brk s) \<and>
     unat (cur_brk s) \<le> unat (heap s) + unat (max_brk_size s)"

text \<open>
  An example of a fresh process: the heap reserved at \<open>0x10000\<close> with the default
  limit of 128 MiB of \<open>main.c\<close>.
\<close>

definition fresh_state :: state where
  "fresh_state = init_state (\<lambda>_. poison) 0x10000 0x8000000"

text \<open>By how many bytes a call moved the break.\<close>

definition grown_bytes :: "state \<Rightarrow> fatal + ptr \<times> state \<Rightarrow> fatal + nat" where
  "grown_bytes s r = map_sum id (\<lambda>(p, s'). unat (cur_brk s') - unat (cur_brk s)) r"

text \<open>The pointer a call returned.\<close>

definition result_ptr :: "(fatal + ptr \<times> state) option \<Rightarrow> (fatal + ptr) option" where
  "result_ptr r = map_option (map_sum id fst) r"

text \<open>
  What a finished run shows of the left-most-free marker: its value, and the free flag
  of the block at \<open>x\<close>.
\<close>

definition marker_view ::
  "ptr \<Rightarrow> (fatal + ptr list \<times> state) option \<Rightarrow> (fatal + ptr \<times> (fatal + bool)) option" where
  "marker_view x r = map_option (map_sum id (\<lambda>(ps, s). (first_free s, check_free x s))) r"

text \<open>
  What a finished run shows of the block with the header at \<open>x\<close>: its free flag and
  its successor.
\<close>

definition block_view ::
  "ptr \<Rightarrow> (fatal + ptr list \<times> state) option \<Rightarrow>
   (fatal + (fatal + bool) \<times> (fatal + ptr)) option" where
  "block_view x r = map_option (map_sum id (\<lambda>(ps, s). (check_free x s, get_next_meta x s))) r"

text \<open>The returned pointers of a finished run.\<close>

definition returned :: "(fatal + ptr list \<times> state) option \<Rightarrow> (fatal + ptr list) option" where
  "returned r = map_option (map_sum id fst) r"

section \<open>Properties\<close>

subsection \<open>Header words\<close>

lemma bit_flag_mask: "bit flag_mask n \<longleftrightarrow> n = 63"
  by (auto simp add: flag_mask_def FLAG_BIT_def bit_simps simp del: push_bit_numeral push_bit_of_1)

lemma offset_w_take_bit: "offset_w d = take_bit 63 d"
  unfolding offset_w_def
  by (rule bit_word_eqI) (auto simp add: bit_simps bit_flag_mask)

lemma unat_offset_w: "unat (offset_w d) = unat d mod 2 ^ 63"
  unfolding offset_w_take_bit unsigned_take_bit_eq by (simp add: take_bit_eq_mod)

lemma offset_w_set_free [simp]: "offset_w (set_free_w d) = offset_w d"
  unfolding offset_w_def set_free_w_def
  by (rule bit_word_eqI) (auto simp add: bit_simps bit_flag_mask)

lemma offset_w_set_inuse [simp]: "offset_w (set_inuse_w d) = offset_w d"
  unfolding offset_w_def set_inuse_w_def
  by (rule bit_word_eqI) (auto simp add: bit_simps bit_flag_mask)

lemma check_free_w_bit: "check_free_w d = bit d 63"
proof -
  have "(d AND flag_mask = 0) = (\<forall>n<64. \<not> bit (d AND flag_mask) n)"
    by (simp add: bit_eq_iff)
  then show ?thesis
    by (simp add: check_free_w_def bit_and_iff bit_flag_mask)
qed

lemma check_free_w_set_free [simp]: "check_free_w (set_free_w d)"
  by (simp add: check_free_w_bit set_free_w_def bit_simps bit_flag_mask)

lemma check_free_w_set_inuse [simp]: "\<not> check_free_w (set_inuse_w d)"
  by (simp add: check_free_w_bit set_inuse_w_def bit_simps bit_flag_mask)

lemma offset_w_small: "unat d < 2 ^ 63 \<Longrightarrow> offset_w d = d"
  by (simp add: word_unat_eq_iff unat_offset_w)

lemma offset_w_set_descriptor: "offset_w (set_descriptor_w t) = t div 8"
proof -
  have "unat (t div 8) < 2 ^ 63"
    using unsigned_less [of t, where 'a = nat] by (simp add: unat_div)
  then show ?thesis
    by (simp add: set_descriptor_w_def ALIGNMENT_def offset_w_small)
qed

lemma check_free_w_set_descriptor [simp]: "check_free_w (set_descriptor_w t)"
  by (simp add: set_descriptor_w_def)

lemma set_free_w_idem [simp]: "set_free_w (set_free_w d) = set_free_w d"
  by (simp add: set_free_w_def)

lemma div8_mul8: "unat (t :: 64 word) mod 8 = 0 \<Longrightarrow> t div 8 * 8 = t"
proof -
  assume a: "unat t mod 8 = 0"
  have "unat (t div 8 * 8) = unat t div 8 * 8"
    using unsigned_less [of t, where 'a = nat]
    by (simp add: unat_word_ariths unat_div)
  also have "\<dots> = unat t" using a by arith
  finally show ?thesis by (simp add: word_unat_eq_iff)
qed

text \<open>
  Encoding a multiple of the alignment unit and decoding it again: the successor is
  always \<open>total_size\<close> bytes further, and the data size is \<open>total_size - 8\<close> unless
  \<open>total_size\<close> is 64.
\<close>

lemma descriptor_roundtrip:
  assumes "unat t mod 8 = 0"
  shows "get_next_meta_w meta (set_descriptor_w t) = meta + t"
    and "get_next_meta_w meta (set_inuse_w (set_descriptor_w t)) = meta + t"
    and "t \<noteq> 64 \<Longrightarrow> get_data_size_w (set_descriptor_w t) = t - 8"
    and "t \<noteq> 64 \<Longrightarrow> get_data_size_w (set_inuse_w (set_descriptor_w t)) = t - 8"
proof -
  have m: "t div 8 * 8 = t" using assms by (rule div8_mul8)
  show "get_next_meta_w meta (set_descriptor_w t) = meta + t"
    and "get_next_meta_w meta (set_inuse_w (set_descriptor_w t)) = meta + t"
    by (simp_all add: get_next_meta_w_def offset_w_set_descriptor sizeof_meta_def m)
  assume "t \<noteq> 64"
  then have "t div 8 \<noteq> 8" using m by auto
  then show "get_data_size_w (set_descriptor_w t) = t - 8"
    and "get_data_size_w (set_inuse_w (set_descriptor_w t)) = t - 8"
    by (simp_all add: get_data_size_w_def offset_w_set_descriptor m)
qed

text \<open>
  Claim C5 (descriptor codec round trip): for every \<open>total_size\<close> that is a positive
  multiple of the alignment unit, decoding the header written by \<open>set_descriptor\<close>
  advances by \<open>total_size\<close> bytes and gives the data size \<open>total_size - 8\<close>, free or in use.
  For a block of 64 bytes the code does not: the magnitude is 8 units, which
  \<open>get_data_size\<close> tests for and answers with 0, while the block has 56 data bytes.
\<close>

theorem get_data_size_of_64_byte_block:
  "get_data_size_w (set_descriptor_w 64) = 0 \<and>
   get_data_size_w (set_inuse_w (set_descriptor_w 64)) = 0 \<and>
   get_next_meta_w meta (set_descriptor_w 64) = meta + 64"
  by (simp add: get_data_size_w_def get_next_meta_w_def offset_w_set_descriptor sizeof_meta_def)

lemma mod8_mod64: "(n :: nat) mod 18446744073709551616 mod 8 = n mod 8"
  by (rule mod_mod_cancel) simp

lemma al8_mul: "unat ((k :: 64 word) * 8) mod 8 = 0"
  by (simp add: unat_word_ariths mod8_mod64)

lemma al8_iff: "unat (x :: 64 word) mod 8 = 0 \<longleftrightarrow> (\<exists>k. x = k * 8)"
proof
  assume "unat x mod 8 = 0"
  then have "x div 8 * 8 = x" by (rule div8_mul8)
  then show "\<exists>k. x = k * 8" by metis
next
  assume "\<exists>k. x = k * 8"
  then show "unat x mod 8 = 0" using al8_mul by auto
qed

lemma al8_add: "unat (x :: 64 word) mod 8 = 0 \<Longrightarrow> unat y mod 8 = 0 \<Longrightarrow> unat (x + y) mod 8 = 0"
  unfolding al8_iff by (metis distrib_right)

lemma al8_sub: "unat (x :: 64 word) mod 8 = 0 \<Longrightarrow> unat y mod 8 = 0 \<Longrightarrow> unat (x - y) mod 8 = 0"
  unfolding al8_iff by (metis left_diff_distrib)

lemma al8_8: "unat (8 :: 64 word) mod 8 = 0"
  by simp

lemma al8_0: "unat (0 :: 64 word) mod 8 = 0"
  by simp

lemma align_al8: "unat (align sz) mod 8 = 0"
proof -
  have d: "unat (sz mod 8) = unat sz mod 8"
    by (simp add: unat_mod)
  have "unat (sz - sz mod 8) mod 8 = 0"
  proof -
    have "unat (sz mod 8) \<le> unat sz" by (simp add: d)
    then have "unat (sz - sz mod 8) = unat sz - unat sz mod 8"
      by (simp add: unat_sub word_le_nat_alt d)
    then show ?thesis by (simp add: minus_mod_eq_mult_div)
  qed
  then have "unat (sz - sz mod 8 + 8) mod 8 = 0"
    by (rule al8_add) simp
  moreover have "sz + 8 - sz mod 8 = sz - sz mod 8 + 8" by simp
  ultimately have a: "unat (sz + 8 - sz mod 8) mod 8 = 0" by (simp only:)
  have b: "sz mod 8 = 0 \<Longrightarrow> unat sz mod 8 = 0"
    using d by simp
  show ?thesis
  proof (cases "sz = 0")
    case True
    then show ?thesis by (simp add: align_def ALIGNMENT_def)
  next
    case False
    show ?thesis
    proof (cases "sz mod 8 = 0")
      case True
      with False b show ?thesis by (simp add: align_def ALIGNMENT_def)
    next
      case False
      with \<open>sz \<noteq> 0\<close> have "align sz = sz + 8 - sz mod 8"
        by (simp add: align_def ALIGNMENT_def)
      with a show ?thesis by (simp only:)
    qed
  qed
qed

subsection \<open>Loads and stores inside the opened heap\<close>

lemma accessible_upd [simp]:
  "accessible (s\<lparr>mem := m\<rparr>) a = accessible s a"
  "accessible (s\<lparr>first_free := f\<rparr>) a = accessible s a"
  "accessible (s\<lparr>recent_freed := r\<rparr>) a = accessible s a"
  "accessible (s\<lparr>base_block := b\<rparr>) a = accessible s a"
  "accessible (s\<lparr>stderr_log := l\<rparr>) a = accessible s a"
  by (simp_all add: accessible_def)

lemma load_acc: "accessible s a \<Longrightarrow> load s a = Inr (mem s a)"
  by (simp add: load_def)

lemma store_acc: "accessible s a \<Longrightarrow> store a v s = Inr (s\<lparr>mem := (mem s)(a := v)\<rparr>)"
  by (simp add: store_def)

lemma check_free_acc: "accessible s a \<Longrightarrow> check_free a s = Inr (check_free_w (mem s a))"
  by (simp add: check_free_def load_acc bindE_def)

lemma get_next_meta_acc:
  "accessible s a \<Longrightarrow> get_next_meta a s = Inr (get_next_meta_w a (mem s a))"
  by (simp add: get_next_meta_def load_acc bindE_def)

lemma get_data_size_acc:
  "accessible s a \<Longrightarrow> get_data_size a s = Inr (get_data_size_w (mem s a))"
  by (simp add: get_data_size_def load_acc bindE_def)

lemma set_free_acc:
  "accessible s a \<Longrightarrow> set_free a s = Inr (s\<lparr>mem := (mem s)(a := set_free_w (mem s a))\<rparr>)"
  by (simp add: set_free_def load_acc store_acc bindE_def)

lemma set_inuse_acc:
  "accessible s a \<Longrightarrow> set_inuse a s = Inr (s\<lparr>mem := (mem s)(a := set_inuse_w (mem s a))\<rparr>)"
  by (simp add: set_inuse_def load_acc store_acc bindE_def)

lemma set_descriptor_acc:
  "accessible s a \<Longrightarrow>
   set_descriptor a t s = Inr (s\<lparr>mem := (mem s)(a := set_descriptor_w t)\<rparr>)"
  by (simp add: set_descriptor_def set_free_acc store_acc bindE_def set_descriptor_w_def)

lemma load_fault: "\<not> accessible s a \<Longrightarrow> load s a = Inl SegFault"
  by (simp add: load_def)

lemma store_fault: "\<not> accessible s a \<Longrightarrow> store a v s = Inl SegFault"
  by (simp add: store_def)

lemma set_free_w_set_descriptor [simp]: "set_free_w (set_descriptor_w t) = set_descriptor_w t"
  by (simp add: set_descriptor_w_def)

lemma get_next_meta_w_flag [simp]:
  "get_next_meta_w a (set_free_w d) = get_next_meta_w a d"
  "get_next_meta_w a (set_inuse_w d) = get_next_meta_w a d"
  by (simp_all add: get_next_meta_w_def)

lemma get_data_size_w_flag [simp]:
  "get_data_size_w (set_free_w d) = get_data_size_w d"
  "get_data_size_w (set_inuse_w d) = get_data_size_w d"
  by (simp_all add: get_data_size_w_def)

text \<open>The effect of \<open>split_block\<close> when both headers it writes are inside the heap.\<close>

lemma split_block_acc:
  assumes "accessible s left"
    and "right = get_next_meta_w left (set_descriptor_w (a + sizeof_meta))"
    and "accessible s right"
  shows "split_block left a s =
    Inr (left, s\<lparr>mem := (mem s)(left := set_descriptor_w (a + sizeof_meta),
                      right := set_descriptor_w (get_data_size_w (mem s left) - a)),
                 first_free := right\<rparr>)"
  using assms
  by (simp add: split_block_def get_data_size_acc set_descriptor_acc set_free_acc
      get_next_meta_acc bindE_def)

subsection \<open>Arithmetic of a split\<close>

lemma unat_lt64: "unat (x :: 64 word) < 18446744073709551616"
  using unsigned_less [of x, where 'a = nat] by simp

lemma unat_plus_small:
  "unat (x :: 64 word) + unat y < 18446744073709551616 \<Longrightarrow> unat (x + y) = unat x + unat y"
  using unat_add_lem [of x y] by simp

lemma split_arith:
  fixes a C result brk :: "64 word"
  assumes le: "a \<le> C" and gt: "16 < C - a" and al: "unat a mod 8 = 0"
    and inside: "unat result + 8 + unat C \<le> unat brk"
  shows "unat (C - a) = unat C - unat a"
    and "unat a + 16 < unat C"
    and "unat (a + 8) = unat a + 8"
    and "(a + 8) div 8 * 8 = a + 8"
    and "unat (result + 8 + a) = unat result + 8 + unat a"
proof -
  have le': "unat a \<le> unat C" using le by (simp add: word_le_nat_alt)
  show s: "unat (C - a) = unat C - unat a" using le by (simp add: unat_sub)
  have "unat (16 :: 64 word) < unat (C - a)" using gt by (simp only: word_less_nat_alt)
  then show lt: "unat a + 16 < unat C" using s by simp
  have b: "unat brk < 18446744073709551616" by (rule unat_lt64)
  show a8: "unat (a + 8) = unat a + 8"
    using lt inside b by (simp add: unat_plus_small)
  have "unat (a + 8) mod 8 = 0" using al a8 by simp
  then show "(a + 8) div 8 * 8 = a + 8" by (rule div8_mul8)
  have "unat (result + 8) = unat result + 8"
    using inside b by (simp add: unat_plus_small)
  then show "unat (result + 8 + a) = unat result + 8 + unat a"
    using lt inside b by (simp add: unat_plus_small)
qed

lemma get_data_size_w_eq: "offset_w d \<noteq> 8 \<Longrightarrow> get_data_size_w d = offset_w d * 8 - 8"
  by (simp add: get_data_size_w_def)

lemma get_data_size_w_8: "offset_w d = 8 \<Longrightarrow> get_data_size_w d = 0"
  by (simp add: get_data_size_w_def)

lemma al8_get_data_size_w: "unat (get_data_size_w d) mod 8 = 0"
  by (cases "offset_w d = 8")
    (simp_all add: get_data_size_w_8 get_data_size_w_eq al8_sub al8_mul)

text \<open>A block whose data size leaves room for a split does not have the magnitude 8.\<close>

lemma split_not_8:
  assumes "a \<le> get_data_size_w d" and "16 < get_data_size_w d - a"
  shows "offset_w d \<noteq> 8"
proof
  assume "offset_w d = 8"
  then have "get_data_size_w d = 0" by (rule get_data_size_w_8)
  with assms show False by simp
qed

text \<open>
  \<open>split_block\<close> on a block whose data size \<open>C\<close> exceeds the aligned request \<open>a\<close> by
  more than a header and a unit, and which lies inside the heap.
\<close>

lemma split_block_effect:
  assumes acc: "accessible s left"
    and C: "C = get_data_size_w (mem s left)"
    and le: "a \<le> C" and gt: "sizeof_meta + ALIGNMENT < C - a"
    and al: "unat a mod 8 = 0"
    and inside: "unat left + 8 + unat C \<le> unat (cur_brk s)"
    and right: "right = left + sizeof_meta + a"
  shows "split_block left a s =
      Inr (left, s\<lparr>mem := (mem s)(left := set_descriptor_w (a + sizeof_meta),
                        right := set_descriptor_w (C - a)),
                   first_free := right\<rparr>)"
    and "accessible s right"
    and "right \<noteq> left"
    and "get_next_meta_w left (set_descriptor_w (a + sizeof_meta)) = right"
    and "get_next_meta_w right (set_descriptor_w (C - a)) = get_next_meta_w left (mem s left)"
proof -
  have gt': "16 < C - a" using gt by (simp add: sizeof_meta_def ALIGNMENT_def)
  note ar = split_arith [OF le gt' al inside]
  have n8: "offset_w (mem s left) \<noteq> 8"
    using le gt' unfolding C by (rule split_not_8)
  show nx: "get_next_meta_w left (set_descriptor_w (a + sizeof_meta)) = right"
    by (simp add: get_next_meta_w_def offset_w_set_descriptor sizeof_meta_def ar(4) right
        add.assoc add.commute)
  show accr: "accessible s right"
    using acc ar(2) ar(5) inside
    by (simp add: accessible_def right sizeof_meta_def)
  show "right \<noteq> left"
  proof
    assume "right = left"
    then have "left + 8 + a = left" by (simp only: right sizeof_meta_def)
    then have "unat (left + 8 + a) = unat left" by (simp only:)
    then show False using ar(5) by simp
  qed
  have "unat (C - a) mod 8 = 0"
    unfolding C using al by (intro al8_sub al8_get_data_size_w)
  then have "(C - a) div 8 * 8 = C - a" by (rule div8_mul8)
  moreover have "C = offset_w (mem s left) * 8 - 8"
    unfolding C using n8 by (rule get_data_size_w_eq)
  ultimately show "get_next_meta_w right (set_descriptor_w (C - a)) =
      get_next_meta_w left (mem s left)"
    by (simp add: get_next_meta_w_def offset_w_set_descriptor sizeof_meta_def right)
  show "split_block left a s =
      Inr (left, s\<lparr>mem := (mem s)(left := set_descriptor_w (a + sizeof_meta),
                        right := set_descriptor_w (C - a)),
                   first_free := right\<rparr>)"
    using split_block_acc [OF acc nx [symmetric] accr] by (simp add: C)
qed

text \<open>
  Claim C9: for an allocation of aligned size \<open>a\<close> whose candidate block has data
  capacity \<open>C\<close> (as \<open>get_data_size\<close> reports it, with \<open>a \<le> C\<close>): if \<open>C - a\<close> exceeds one
  header plus one alignment unit, the candidate is split into the returned left block
  with exactly \<open>a\<close> data bytes (its successor is \<open>a\<close> bytes behind its data start) and a
  new free right block right after it that ends where the candidate ended; otherwise
  the candidate is returned as it is and the state does not change.
\<close>

theorem block_split_spec:
  assumes "accessible s result"
    and "C = get_data_size_w (mem s result)"
    and "a \<le> C" and "unat a mod 8 = 0"
    and "unat result + 8 + unat C \<le> unat (cur_brk s)"
    and "right = result + sizeof_meta + a"
  shows "if sizeof_meta + ALIGNMENT < C - a
    then \<exists>s'. block_split result a s = Inr (result, s') \<and>
           get_next_meta result s' = Inr right \<and>
           check_free right s' = Inr True \<and>
           get_next_meta right s' = get_next_meta result s \<and>
           first_free s' = right \<and>
           (\<forall>x. x \<noteq> result \<and> x \<noteq> right \<longrightarrow> mem s' x = mem s x)
    else block_split result a s = Inr (result, s)"
proof (cases "sizeof_meta + ALIGNMENT < C - a")
  case True
  note e = split_block_effect [OF assms(1) assms(2) assms(3) True assms(4) assms(5) assms(6)]
  let ?s' = "s\<lparr>mem := (mem s)(result := set_descriptor_w (a + sizeof_meta),
                        right := set_descriptor_w (C - a)),
                   first_free := right\<rparr>"
  have "block_split result a s = Inr (result, ?s')"
    using True assms(1) assms(2) e(1)
    by (simp add: block_split_def get_data_size_acc bindE_def)
  moreover have "get_next_meta result ?s' = Inr right"
    using assms(1) e(3) e(4) by (simp add: get_next_meta_acc)
  moreover have "check_free right ?s' = Inr True"
    using e(2) by (simp add: check_free_acc)
  moreover have "get_next_meta right ?s' = get_next_meta result s"
    using e(2) e(5) assms(1) by (simp add: get_next_meta_acc)
  ultimately show ?thesis using True by auto
next
  case False
  then show ?thesis
    using assms(1) assms(2) by (simp add: block_split_def get_data_size_acc bindE_def)
qed

theorem block_split_spec_witness:
  "accessible (page_state (set_descriptor_w 4096)) 0x10000 \<and>
   (8 :: size_t) \<le> 4088 \<and>
   (\<exists>s'. block_split 0x10000 8 (page_state (set_descriptor_w 4096)) = Inr (0x10000, s') \<and>
      get_next_meta 0x10000 s' = Inr 0x10010 \<and>
      check_free 0x10010 s' = Inr True \<and>
      get_next_meta 0x10010 s' = Inr 0x11000 \<and>
      first_free s' = 0x10010)"
proof -
  let ?s = "page_state (set_descriptor_w 4096)"
  have d: "offset_w (set_descriptor_w 4096) = 512"
    by (simp add: offset_w_set_descriptor)
  have C: "(4088 :: size_t) = get_data_size_w (mem ?s 0x10000)"
    by (simp add: page_state_def get_data_size_w_def d)
  have acc: "accessible ?s 0x10000"
    by (simp add: accessible_def page_state_def)
  have n: "get_next_meta 0x10000 ?s = Inr 0x11000"
    using acc by (simp add: get_next_meta_acc) (simp add: page_state_def get_next_meta_w_def d sizeof_meta_def)
  have "if sizeof_meta + ALIGNMENT < (4088 :: size_t) - 8
    then \<exists>s'. block_split 0x10000 8 ?s = Inr (0x10000, s') \<and>
           get_next_meta 0x10000 s' = Inr 0x10010 \<and>
           check_free 0x10010 s' = Inr True \<and>
           get_next_meta 0x10010 s' = get_next_meta 0x10000 ?s \<and>
           first_free s' = 0x10010 \<and>
           (\<forall>x. x \<noteq> 0x10000 \<and> x \<noteq> 0x10010 \<longrightarrow> mem s' x = mem ?s x)
    else block_split 0x10000 8 ?s = Inr (0x10000, ?s)"
    by (rule block_split_spec [OF acc C])
      (simp_all add: page_state_def sizeof_meta_def)
  then show ?thesis
    using acc n by (auto simp add: sizeof_meta_def ALIGNMENT_def)
qed

subsection \<open>Shrinking in place with \<open>myrealloc\<close>\<close>

lemma shift_recent_4: "shift_recent 4 [a, b, c, d, e] = [a, a, b, c, d]"
  by (simp add: numeral_eq_Suc)

lemma myrealloc_shrink:
  assumes p: "p \<noteq> NULL" and sz: "sz \<noteq> 0" and base: "base_block s \<noteq> NULL"
    and inuse: "check_free (p - sizeof_meta) s = Inr False"
    and C: "C = get_data_size_w (mem s (p - sizeof_meta))"
    and le: "align sz \<le> C" and gt: "sizeof_meta + ALIGNMENT < C - align sz"
    and inside: "unat p + unat C \<le> unat (cur_brk s)"
  shows "myrealloc p sz s =
      Some (Inr (p, s\<lparr>mem := (mem s)(p - sizeof_meta := set_descriptor_w (align sz + sizeof_meta),
                              p + align sz := set_descriptor_w (C - align sz)),
                       first_free := p + align sz\<rparr>))"
    and "accessible s (p - sizeof_meta)"
    and "accessible s (p + align sz)"
    and "p + align sz \<noteq> p - sizeof_meta"
    and "get_next_meta_w (p - sizeof_meta) (set_descriptor_w (align sz + sizeof_meta)) = p + align sz"
    and "get_next_meta_w (p + align sz) (set_descriptor_w (C - align sz)) =
         get_next_meta_w (p - sizeof_meta) (mem s (p - sizeof_meta))"
    and "unat (p - sizeof_meta) + 8 = unat p"
proof -
  show acc: "accessible s (p - sizeof_meta)"
  proof (rule ccontr)
    assume "\<not> accessible s (p - sizeof_meta)"
    then have "check_free (p - sizeof_meta) s = Inl SegFault"
      by (simp add: check_free_def load_fault bindE_def)
    with inuse show False by simp
  qed
  have "unat (p - sizeof_meta) + unat (8 :: 64 word) < 18446744073709551616"
    using acc unat_lt64 [of "cur_brk s"] by (simp add: accessible_def)
  then have "unat (p - sizeof_meta + 8) = unat (p - sizeof_meta) + unat (8 :: 64 word)"
    by (rule unat_plus_small)
  then show u: "unat (p - sizeof_meta) + 8 = unat p"
    by (simp add: sizeof_meta_def)
  have inside': "unat (p - sizeof_meta) + 8 + unat C \<le> unat (cur_brk s)"
    using inside u by simp
  have r: "p + align sz = p - sizeof_meta + sizeof_meta + align sz" by simp
  note e = split_block_effect [OF acc C le gt align_al8 inside' r]
  show "accessible s (p + align sz)" by (rule e(2))
  show "p + align sz \<noteq> p - sizeof_meta" by (rule e(3))
  show "get_next_meta_w (p - sizeof_meta) (set_descriptor_w (align sz + sizeof_meta)) = p + align sz"
    by (rule e(4))
  show "get_next_meta_w (p + align sz) (set_descriptor_w (C - align sz)) =
         get_next_meta_w (p - sizeof_meta) (mem s (p - sizeof_meta))"
    by (rule e(5))
  have "\<not> C < align sz" using le by simp
  then show "myrealloc p sz s =
      Some (Inr (p, s\<lparr>mem := (mem s)(p - sizeof_meta := set_descriptor_w (align sz + sizeof_meta),
                              p + align sz := set_descriptor_w (C - align sz)),
                       first_free := p + align sz\<rparr>))"
    using p sz base gt e(1) C
    by (simp add: myrealloc_def Let_def get_data_size_acc [OF acc] bindE_def)
qed

text \<open>A data byte of the shrunk block is neither of the two headers written.\<close>

lemma data_not_header:
  fixes p a :: "64 word"
  assumes i: "i < unat a" and u: "unat (p - sizeof_meta) + 8 = unat p"
    and b: "unat p + unat a < 18446744073709551616"
  shows "p + of_nat i \<noteq> p - sizeof_meta" and "p + of_nat i \<noteq> p + a"
proof -
  have a: "unat a < 18446744073709551616" by (rule unat_lt64)
  have ui: "unat (of_nat i :: 64 word) = i"
    using i a by (simp add: unat_of_nat)
  show "p + of_nat i \<noteq> p + a"
  proof
    assume "p + of_nat i = p + a"
    then have "(of_nat i :: 64 word) = a" by simp
    then have "unat (of_nat i :: 64 word) = unat a" by simp
    with ui i show False by simp
  qed
  show "p + of_nat i \<noteq> p - sizeof_meta"
  proof
    assume "p + of_nat i = p - sizeof_meta"
    then have "(of_nat i :: 64 word) = - 8" by (simp add: sizeof_meta_def)
    then have "unat (of_nat i :: 64 word) = unat (- 8 :: 64 word)" by simp
    then have "i = 18446744073709551608" using ui by simp
    then show False using i u b by simp
  qed
qed

lemmas eval_defs =
  mymalloc_def get_free_block_def heap_expand_def expand_heap_def block_split_def
  split_block_def page_request_def sbrk_def do_brk_def set_descriptor_def set_free_def
  set_inuse_def get_data_size_def get_next_meta_def check_free_def load_def store_def
  accessible_def bindE_def align_def ALIGNMENT_def PAGE_SIZE_def sizeof_meta_def NULL_def
  get_data_size_w_def get_next_meta_w_def offset_w_def set_free_w_def set_inuse_w_def
  check_free_w_def flag_mask_def FLAG_BIT_def myfree_def perror_def myrealloc_def
  memcpy_def Let_def shift_recent_4

text \<open>The example state with an in-use block is what the first allocation leaves.\<close>

lemma page_state_reached:
  "mymalloc 4080 (init_state (\<lambda>_. poison) 0x10000 0x8000000) =
     Some (Inr (0x10008, page_state 512))"
  by (simp add: eval_defs init_state_def page_state_def) (simp add: fun_eq_iff)

text \<open>
  The in-place path of \<open>myrealloc\<close>, entered on the value \<open>C\<close> that \<open>get_data_size\<close>
  returns for the block: for a requested size \<open>sz > 0\<close> with \<open>align sz \<le> C\<close> and
  \<open>C - align sz\<close> greater than a header plus a unit, \<open>myrealloc p sz\<close> returns \<open>p\<close>,
  leaves the first \<open>align sz\<close> data bytes as they were, makes the block end \<open>align sz\<close>
  bytes behind \<open>p\<close>, and puts a free block there that ends where the block ended
  before.  (\<open>C\<close> is the block's capacity except for blocks of 64 bytes, for which
  \<open>get_data_size\<close> returns 0; those never enter this path.)
\<close>

theorem realloc_shrink_in_place:
  assumes "p \<noteq> NULL" and "sz \<noteq> 0" and "base_block s \<noteq> NULL"
    and "check_free (p - sizeof_meta) s = Inr False"
    and "C = get_data_size_w (mem s (p - sizeof_meta))"
    and "align sz \<le> C" and "sizeof_meta + ALIGNMENT < C - align sz"
    and "unat p + unat C \<le> unat (cur_brk s)"
  shows "\<exists>s'. myrealloc p sz s = Some (Inr (p, s')) \<and>
      (\<forall>i < unat (align sz). mem s' (p + of_nat i) = mem s (p + of_nat i)) \<and>
      get_next_meta (p - sizeof_meta) s' = Inr (p + align sz) \<and>
      check_free (p + align sz) s' = Inr True \<and>
      get_next_meta (p + align sz) s' = get_next_meta (p - sizeof_meta) s"
proof -
  note e = myrealloc_shrink [OF assms]
  let ?s' = "s\<lparr>mem := (mem s)(p - sizeof_meta := set_descriptor_w (align sz + sizeof_meta),
                          p + align sz := set_descriptor_w (C - align sz)),
                first_free := p + align sz\<rparr>"
  have "unat (align sz) \<le> unat C" using assms(6) by (simp add: word_le_nat_alt)
  then have b: "unat p + unat (align sz) < 18446744073709551616"
    using assms(8) unat_lt64 [of "cur_brk s"] by simp
  have "\<forall>i < unat (align sz). mem ?s' (p + of_nat i) = mem s (p + of_nat i)"
    using data_not_header [OF _ e(7) b] by simp
  moreover have "get_next_meta (p - sizeof_meta) ?s' = Inr (p + align sz)"
    using e(2) e(4) e(5) by (simp add: get_next_meta_acc)
  moreover have "check_free (p + align sz) ?s' = Inr True"
    using e(3) by (simp add: check_free_acc)
  moreover have "get_next_meta (p + align sz) ?s' = get_next_meta (p - sizeof_meta) s"
    using e(2) e(3) e(6) by (simp add: get_next_meta_acc)
  ultimately show ?thesis using e(1) by blast
qed

theorem realloc_shrink_in_place_witness:
  "(0x10008 :: ptr) \<noteq> NULL \<and> (64 :: size_t) \<noteq> 0 \<and> base_block (page_state 512) \<noteq> NULL \<and>
   check_free (0x10008 - sizeof_meta) (page_state 512) = Inr False \<and>
   align 64 \<le> (4088 :: size_t) \<and>
   (\<exists>s'. myrealloc 0x10008 64 (page_state 512) = Some (Inr (0x10008, s')) \<and>
      (\<forall>i < 64. mem s' (0x10008 + of_nat i) = mem (page_state 512) (0x10008 + of_nat i)) \<and>
      get_next_meta 0x10000 s' = Inr 0x10048 \<and>
      check_free 0x10048 s' = Inr True \<and>
      get_next_meta 0x10048 s' = Inr 0x11000)"
proof -
  let ?s = "page_state 512"
  have h1: "(0x10008 :: ptr) \<noteq> NULL" by (simp add: NULL_def)
  have h2: "(64 :: size_t) \<noteq> 0" by simp
  have h3: "base_block ?s \<noteq> NULL" by (simp add: page_state_def NULL_def)
  have h4: "check_free (0x10008 - sizeof_meta) ?s = Inr False"
    by (simp add: eval_defs page_state_def)
  have h5: "(4088 :: size_t) = get_data_size_w (mem ?s (0x10008 - sizeof_meta))"
    by (simp add: eval_defs page_state_def)
  have a: "align 64 = 64" by (simp add: align_def ALIGNMENT_def)
  have h6: "align 64 \<le> (4088 :: size_t)" by (simp add: a)
  have h7: "sizeof_meta + ALIGNMENT < (4088 :: size_t) - align 64"
    by (simp add: a sizeof_meta_def ALIGNMENT_def)
  have h8: "unat (0x10008 :: ptr) + unat (4088 :: size_t) \<le> unat (cur_brk ?s)"
    by (simp add: page_state_def)
  have n: "get_next_meta (0x10008 - sizeof_meta) ?s = Inr 0x11000"
    by (simp add: eval_defs page_state_def)
  show ?thesis
    using realloc_shrink_in_place [OF h1 h2 h3 h4 h5 h6 h7 h8] h1 h2 h3 h4 h6 n
    by (simp add: a sizeof_meta_def)
qed

text \<open>
  A requested size of 0 is a release: \<open>myrealloc\<close> returns the null pointer, although
  the aligned size of 0 is one unit.
\<close>

theorem realloc_size_zero_releases:
  "check_free (0x10008 - sizeof_meta) (page_state 512) = Inr False \<and>
   align 0 \<le> get_data_size_w (mem (page_state 512) (0x10008 - sizeof_meta)) \<and>
   sizeof_meta + ALIGNMENT <
     get_data_size_w (mem (page_state 512) (0x10008 - sizeof_meta)) - align 0 \<and>
   result_ptr (myrealloc 0x10008 0 (page_state 512)) = Some (Inr NULL) \<and>
   NULL \<noteq> (0x10008 :: ptr)"
  by (simp add: eval_defs page_state_def result_ptr_def free_loop.simps)

text \<open>
  Claim C2 (for every non-null pointer \<open>p\<close> to an in-use block of data capacity \<open>C\<close> and
  every requested size \<open>s\<close> with \<open>aligned(s) \<le> C\<close> and \<open>C - aligned(s)\<close> greater than a
  header plus a unit, \<open>reallocate(p, s)\<close> splits the block in place and returns \<open>p\<close>)
  fails on the code for a block of 56 data bytes.  \<open>mymalloc 56\<close> returns \<open>0x10008\<close>
  in a block that is in use and ends at \<open>0x10040\<close>; shrinking it to 8 bytes
  (\<open>8 \<le> 56\<close> and \<open>56 - 8 > 16\<close>) returns another pointer, \<open>0x10048\<close>, and the old
  block is released whole instead of being split.
\<close>

theorem realloc_of_56_byte_block_moves:
  "returned (run [Malloc 56] [] fresh_state) = Some (Inr [0x10008]) \<and>
   block_view 0x10000 (run [Malloc 56] [] fresh_state) =
     Some (Inr (Inr False, Inr 0x10040)) \<and>
   align 8 = 8 \<and>
   returned (run [Malloc 56, Realloc 0 8] [] fresh_state) = Some (Inr [0x10008, 0x10048]) \<and>
   block_view 0x10000 (run [Malloc 56, Realloc 0 8] [] fresh_state) =
     Some (Inr (Inr True, Inr 0x10040))"
  by (simp add: eval_defs fresh_state_def init_state_def returned_def block_view_def
      first_fit.simps free_loop.simps)



subsection \<open>Failing heap growth\<close>

lemma do_brk_Inl: "do_brk addr s = Inl e \<Longrightarrow> e = BrkBeforeHeapStart \<or> e = BrkBeyondMaxHeapSize"
  by (auto simp add: do_brk_def split: if_splits)

lemma sbrk_Inl: "sbrk n s = Inl e \<Longrightarrow> e = BrkBeforeHeapStart \<or> e = BrkBeyondMaxHeapSize"
  by (auto simp add: sbrk_def bindE_def dest: do_brk_Inl split: sum.splits)

lemma expand_heap_sbrk_fails:
  "sbrk (page_request a * PAGE_SIZE) s = Inl e \<Longrightarrow> expand_heap a s = Inl e"
  by (simp add: expand_heap_def bindE_def)

lemma heap_expand_sbrk_fails:
  "sbrk (page_request a * PAGE_SIZE) s = Inl e \<Longrightarrow> heap_expand a s = Inl e"
  by (simp add: heap_expand_def expand_heap_sbrk_fails bindE_def)

lemma growth_path_get_free_block:
  "growth_path a s = Some s1 \<Longrightarrow> get_free_block a s = Some (heap_expand a s1)"
  by (auto simp add: growth_path_def get_free_block_def
      split: if_splits sum.splits option.splits prod.splits)

text \<open>
  Claim C1: when an allocation reaches the heap-growth path and the heap source cannot
  satisfy the growth request (\<open>sbrk\<close> ends in one of the two assertions of \<open>do_brk\<close>,
  which print their message and exit), the allocation ends the process with that
  diagnostic; no state with a new block results.
\<close>

theorem growth_failure_is_fatal:
  assumes "sz \<noteq> 0"
    and "growth_path (align sz) s = Some s1"
    and "sbrk (page_request (align sz) * PAGE_SIZE) s1 = Inl e"
  shows "mymalloc sz s = Some (Inl e) \<and> expand_heap (align sz) s1 = Inl e \<and>
    (e = BrkBeforeHeapStart \<or> e = BrkBeyondMaxHeapSize)"
  using assms
  by (simp add: mymalloc_def growth_path_get_free_block heap_expand_sbrk_fails
      expand_heap_sbrk_fails sbrk_Inl)

theorem growth_failure_is_fatal_witness:
  "(8 :: size_t) \<noteq> 0 \<and>
   growth_path (align 8) (init_state (\<lambda>_. poison) 0x10000 0) =
     Some (init_state (\<lambda>_. poison) 0x10000 0) \<and>
   sbrk (page_request (align 8) * PAGE_SIZE) (init_state (\<lambda>_. poison) 0x10000 0) =
     Inl BrkBeyondMaxHeapSize \<and>
   mymalloc 8 (init_state (\<lambda>_. poison) 0x10000 0) = Some (Inl BrkBeyondMaxHeapSize)"
proof -
  let ?s = "init_state (\<lambda>_. poison) 0x10000 0"
  have h1: "(8 :: size_t) \<noteq> 0" by simp
  have h2: "growth_path (align 8) ?s = Some ?s"
    by (simp add: growth_path_def init_state_def)
  have h3: "sbrk (page_request (align 8) * PAGE_SIZE) ?s = Inl BrkBeyondMaxHeapSize"
    by (simp add: eval_defs init_state_def)
  show ?thesis
    using growth_failure_is_fatal [OF h1 h2 h3] h1 h2 h3 by simp
qed

subsection \<open>Releasing before the first allocation\<close>

lemma sbrk_0:
  "\<not> cur_brk s < heap s \<Longrightarrow> unat (cur_brk s) \<le> unat (heap s) + unat (max_brk_size s) \<Longrightarrow>
   sbrk 0 s = Inr (cur_brk s, s)"
  by (simp add: sbrk_def do_brk_def bindE_def)

text \<open>
  With \<open>base_block\<close> still null, \<open>myfree\<close> prints its message and then walks the chain
  from the null pointer: the first header it reads is outside the heap.
\<close>

lemma myfree_before_first_allocation:
  assumes "base_block s = NULL" and "p \<noteq> NULL" and "heap s \<noteq> 0"
    and "\<not> cur_brk s < heap s"
    and "unat (cur_brk s) \<le> unat (heap s) + unat (max_brk_size s)"
  shows "myfree p s = Some (Inl SegFault)"
proof -
  let ?s1 = "perror ''No memory has been allocated yet'' s"
  have n0: "\<not> accessible ?s1 0"
    using assms(3) by (simp add: accessible_def perror_def unat_eq_0)
  have b: "cur_brk ?s1 \<noteq> 0"
    using assms(3) assms(4) by (auto simp add: perror_def word_neq_0_conv)
  have s0: "sbrk 0 ?s1 = Inr (cur_brk ?s1, ?s1)"
    using assms(4) assms(5) by (intro sbrk_0) (simp_all add: perror_def)
  have "free_loop p 0 ?s1 = Some (Inl SegFault)"
    using n0 b by (subst free_loop.simps)
      (simp add: s0 check_free_def get_next_meta_def load_fault bindE_def)
  then show ?thesis
    using assms(1) assms(2) by (simp add: myfree_def NULL_def Let_def perror_def ALIGNMENT_def)
qed

text \<open>
  Claim C10 (a release that matches no in-use block leaves the allocator state unchanged
  and reports a diagnostic without ending the process) fails on a process that has not
  allocated yet: \<open>myfree\<close> reports and then faults on the null \<open>base_block\<close>.
\<close>

theorem myfree_on_fresh_process_faults:
  "(0x10008 :: ptr) \<noteq> NULL \<and>
   blocks (mem fresh_state) (heap fresh_state) (cur_brk fresh_state) = Some [] \<and>
   myfree 0x10008 fresh_state = Some (Inl SegFault)"
proof -
  have "myfree 0x10008 fresh_state = Some (Inl SegFault)"
    by (rule myfree_before_first_allocation)
      (simp_all add: fresh_state_def init_state_def NULL_def)
  moreover have "blocks (mem fresh_state) (heap fresh_state) (cur_brk fresh_state) = Some []"
    by (subst blocks.simps) (simp add: fresh_state_def init_state_def)
  ultimately show ?thesis by (simp add: NULL_def)
qed

subsection \<open>Concrete runs\<close>

text \<open>
  Claim C4 (no update sets the left-most-free marker above a known free block with a
  smaller address) fails on the code: after two allocations and the release of the
  first, the marker is at the released block \<open>0x10000\<close>; the next allocation of 16 bytes
  splits the block at the end of the chain and moves the marker to \<open>0x10038\<close>, while
  the block at \<open>0x10000\<close> is still free.
\<close>

theorem split_moves_marker_above_free_block:
  "marker_view 0x10000 (run [Malloc 8, Malloc 8, Free 0] [] fresh_state) =
     Some (Inr (0x10000, Inr True)) \<and>
   marker_view 0x10000 (run [Malloc 8, Malloc 8, Free 0, Malloc 16] [] fresh_state) =
     Some (Inr (0x10038, Inr True)) \<and>
   (0x10000 :: ptr) < 0x10038"
  by (simp add: eval_defs fresh_state_def init_state_def marker_view_def
      first_fit.simps free_loop.simps)

text \<open>
  The LIFO reuse of claim C7 for blocks of 8 bytes: the second five allocations return
  the blocks 2, 1, 3, 4, 0 of the first five.
\<close>

lemma lifo_reuse_8:
  "returned (run (lifo_calls 8) [] fresh_state) =
     Some (Inr [0x10008, 0x10018, 0x10028, 0x10038, 0x10048,
                0x10028, 0x10018, 0x10038, 0x10048, 0x10008])"
  by (simp add: eval_defs fresh_state_def init_state_def returned_def lifo_calls_def
      first_fit.simps free_loop.simps)

text \<open>
  Claim C7 (after five allocations of one size and their release in the order 0, 4, 3,
  1, 2, the next five allocations of that size return the blocks 2, 1, 3, 4, 0) fails
  for blocks of 56 bytes: their data size reads as 0, so neither the cache nor the scan
  accepts them, and the five new allocations are cut from the end of the chain.
\<close>

theorem lifo_reuse_fails_for_56:
  "returned (run (lifo_calls 56) [] fresh_state) =
     Some (Inr [0x10008, 0x10048, 0x10088, 0x100C8, 0x10108,
                0x10148, 0x10188, 0x101C8, 0x10208, 0x10248])"
  by (simp add: eval_defs fresh_state_def init_state_def returned_def lifo_calls_def
      first_fit.simps free_loop.simps)

subsection \<open>Heap growth\<close>

lemma mod4096_mod64: "(n :: nat) mod 18446744073709551616 mod 4096 = n mod 4096"
  by (rule mod_mod_cancel) simp

lemma unat_mul_4096_mod: "unat ((k :: 64 word) * 4096) mod 4096 = 0"
  by (simp add: unat_word_ariths mod4096_mod64)

lemma page_bytes_pos: "unat (page_request a * PAGE_SIZE) \<noteq> 0 \<Longrightarrow> 4096 \<le> unat (page_request a * PAGE_SIZE)"
proof (rule ccontr)
  assume nz: "unat (page_request a * PAGE_SIZE) \<noteq> 0"
    and "\<not> 4096 \<le> unat (page_request a * PAGE_SIZE)"
  then have "unat (page_request a * PAGE_SIZE) mod 4096 = unat (page_request a * PAGE_SIZE)"
    by simp
  moreover have "unat (page_request a * PAGE_SIZE) mod 4096 = 0"
    unfolding PAGE_SIZE_def by (rule unat_mul_4096_mod)
  ultimately show False using nz by simp
qed

lemma al8_page_bytes: "unat (page_request a * PAGE_SIZE) mod 8 = 0"
proof -
  have "page_request a * PAGE_SIZE = page_request a * 512 * 8"
    by (simp add: PAGE_SIZE_def)
  then show ?thesis by (simp only: al8_mul)
qed

text \<open>The bytes requested, when nothing wraps around.\<close>

lemma page_bytes_nat:
  assumes "((unat a + 8) div 4096 + 1) * 4096 < 18446744073709551616"
  shows "unat (page_request a * PAGE_SIZE) = ((unat a + 8) div 4096 + 1) * 4096"
proof -
  have lt: "unat a + 8 < ((unat a + 8) div 4096 + 1) * 4096"
    using dividend_less_times_div [of 4096 "unat a + 8"] by (simp add: algebra_simps)
  have a8: "unat (a + 8) = unat a + 8"
    using assms lt by (simp add: unat_plus_small)
  have d: "unat ((a + 8) div 4096) = (unat a + 8) div 4096"
    by (simp add: unat_div a8)
  have "unat ((a + 8) div 4096) + unat (1 :: 64 word) < 18446744073709551616"
    using assms d by simp
  then have p: "unat ((a + 8) div 4096 + 1) = (unat a + 8) div 4096 + 1"
    using d by (simp add: unat_plus_small)
  have "unat ((a + 8) div 4096 + 1) * unat (4096 :: 64 word) < 2 ^ LENGTH(64)"
    using assms p by simp
  then have "unat (((a + 8) div 4096 + 1) * 4096) = unat ((a + 8) div 4096 + 1) * unat (4096 :: 64 word)"
    by (simp only: unat_mult_lem)
  then show ?thesis
    using p by (simp add: page_request_def PAGE_SIZE_def sizeof_meta_def)
qed

text \<open>\<open>expand_heap\<close> when the request fits into the reserved heap.\<close>

lemma expand_heap_grow:
  assumes hb: "unat (heap s) \<le> unat (cur_brk s)"
    and inc: "inc = page_request a * PAGE_SIZE"
    and pos: "unat inc \<noteq> 0"
    and fit: "unat (cur_brk s) + unat inc \<le> unat (heap s) + unat (max_brk_size s)"
    and res: "unat (heap s) + unat (max_brk_size s) < 18446744073709551616"
  shows "expand_heap a s =
      Inr (cur_brk s,
        s\<lparr>num_brk_increase_calls := num_brk_increase_calls s + 1,
          mem := (\<lambda>x. if cur_brk s \<le> x \<and> x < cur_brk s + inc then poison else mem s x)
                   (cur_brk s := set_descriptor_w inc),
          cur_brk := cur_brk s + inc,
          first_free := cur_brk s\<rparr>)"
    and "unat (cur_brk s + inc) = unat (cur_brk s) + unat inc"
    and "4096 \<le> unat inc"
proof -
  show u: "unat (cur_brk s + inc) = unat (cur_brk s) + unat inc"
    using fit res by (simp add: unat_plus_small)
  show ge: "4096 \<le> unat inc"
    using pos unfolding inc by (rule page_bytes_pos)
  let ?s1 = "s\<lparr>num_brk_increase_calls := num_brk_increase_calls s + 1,
          mem := (\<lambda>x. if cur_brk s \<le> x \<and> x < cur_brk s + inc then poison else mem s x),
          cur_brk := cur_brk s + inc\<rparr>"
  have "do_brk (cur_brk s + inc) s = Inr ?s1"
    using hb fit u ge by (simp add: do_brk_def word_less_nat_alt word_unat_eq_iff)
  then have sb: "sbrk inc s = Inr (cur_brk s, ?s1)"
    by (simp add: sbrk_def bindE_def)
  have acc: "accessible ?s1 (cur_brk s)"
    using hb u ge by (simp add: accessible_def)
  show "expand_heap a s =
      Inr (cur_brk s,
        s\<lparr>num_brk_increase_calls := num_brk_increase_calls s + 1,
          mem := (\<lambda>x. if cur_brk s \<le> x \<and> x < cur_brk s + inc then poison else mem s x)
                   (cur_brk s := set_descriptor_w inc),
          cur_brk := cur_brk s + inc,
          first_free := cur_brk s\<rparr>)"
    unfolding expand_heap_def inc [symmetric]
    using acc
    by (simp add: sb bindE_def set_descriptor_def set_free_def store_def load_def
        accessible_def set_descriptor_w_def)
qed

text \<open>
  Claim C6 as worded asks for the minimal number of whole pages,
  \<open>ceil((min_bytes + header_size) / page_size)\<close>.  For \<open>min_bytes = 4088\<close> one page
  covers the request and its header, and \<open>expand_heap\<close> moves the break by two.
\<close>

theorem expand_heap_4088_counterexample:
  "grown_bytes fresh_state (expand_heap 4088 fresh_state) = Inr 8192 \<and>
   spec_pages 4088 * 4096 = 4096"
  by (simp add: eval_defs fresh_state_def init_state_def grown_bytes_def spec_pages_def)

subsection \<open>Small allocations from the free block at the end of the chain\<close>

lemma unat_offset_bytes:
  fixes u :: "64 word"
  assumes "8 * unat u < 18446744073709551616" and "unat u \<noteq> 0" and "u \<noteq> 8"
    and that: "offset_w d = u"
  shows "unat (get_data_size_w d) = 8 * unat u - 8"
proof -
  have m: "unat (u * 8) = unat u * 8"
    using assms(1) unat_mult_lem [of u "8 :: 64 word"] by simp
  then have "unat (8 :: 64 word) \<le> unat (u * 8)" using assms(2) by simp
  then have "(8 :: 64 word) \<le> u * 8" by (simp only: word_le_nat_alt)
  then have "unat (u * 8 - 8) = unat (u * 8) - unat (8 :: 64 word)" by (rule unat_sub)
  then show ?thesis using m that assms(3) by (simp add: get_data_size_w_def)
qed

lemma mymalloc_8_tail:
  assumes t: "tail_free s" and big: "8 < unat (offset_w (mem s (first_free s)))"
  shows "\<exists>s'. mymalloc 8 s = Some (Inr (first_free s + 8, s')) \<and> tail_free s' \<and>
    num_brk_increase_calls s' = num_brk_increase_calls s \<and>
    unat (offset_w (mem s' (first_free s'))) = unat (offset_w (mem s (first_free s))) - 2"
proof -
  let ?f = "first_free s"
  let ?U = "offset_w (mem s ?f)"
  let ?C = "get_data_size_w (mem s ?f)"
  have base: "base_block s \<noteq> NULL" and rf: "recent_freed s = [NULL, NULL, NULL, NULL, NULL]"
    and fr: "check_free_w (mem s ?f)" and hf: "unat (heap s) \<le> unat ?f"
    and end_: "unat ?f + 8 * unat ?U = unat (cur_brk s)"
    and lim: "unat (cur_brk s) \<le> unat (heap s) + unat (max_brk_size s)"
    using t by (simp_all add: tail_free_def)
  have b64: "unat (cur_brk s) < 18446744073709551616" by (rule unat_lt64)
  have n8: "?U \<noteq> 8" using big by auto
  have uC: "unat ?C = 8 * unat ?U - 8"
    using end_ b64 big n8 by (intro unat_offset_bytes [where u = "?U"]) simp_all
  have acc: "accessible s ?f"
    using hf end_ big by (simp add: accessible_def)
  have ne: "?f \<noteq> cur_brk s"
    using end_ big by (auto simp add: word_unat_eq_iff)
  have s0: "sbrk 0 s = Inr (cur_brk s, s)"
    using hf end_ lim by (intro sbrk_0) (simp_all add: word_less_nat_alt)
  have le: "(8 :: size_t) \<le> ?C"
    using uC big by (simp add: word_le_nat_alt)
  have cr: "check_recent 8 [0, 1, 2, 3, 4] s = Inr (None, s)"
    by (simp add: rf)
  have ff: "first_fit 8 ?f s = Some (Inr (Some ?f, s))"
    using ne fr le by (subst first_fit.simps) (simp add: s0 check_free_acc [OF acc] get_data_size_acc [OF acc])
  have sub: "unat (?C - 8) = unat ?C - 8"
    using le by (simp add: unat_sub)
  have gt: "sizeof_meta + ALIGNMENT < ?C - 8"
    using sub uC big by (simp add: sizeof_meta_def ALIGNMENT_def word_less_nat_alt)
  have inside: "unat ?f + 8 + unat ?C \<le> unat (cur_brk s)"
    using uC end_ big by simp
  note e = split_block_effect [OF acc refl le gt al8_8 inside refl]
  let ?r = "?f + sizeof_meta + 8"
  let ?s2 = "s\<lparr>mem := (mem s)(?f := set_descriptor_w (8 + sizeof_meta),
                        ?r := set_descriptor_w (?C - 8)),
                 first_free := ?r\<rparr>"
  have bs: "block_split ?f 8 s = Inr (?f, ?s2)"
    using gt e(1) by (simp add: block_split_def get_data_size_acc [OF acc] bindE_def)
  have gfb: "get_free_block 8 s = Some (Inr (?f, ?s2))"
    unfolding get_free_block_def cr using base by (simp add: ff bs)
  let ?s3 = "?s2\<lparr>mem := (mem ?s2)(?f := set_inuse_w (mem ?s2 ?f))\<rparr>"
  have acc2: "accessible ?s2 ?f" using acc by simp
  have si: "set_inuse ?f ?s2 = Inr ?s3" using acc2 by (rule set_inuse_acc)
  have a8: "align 8 = 8" by (simp add: align_def ALIGNMENT_def)
  have "mymalloc 8 s = Some (Inr (?f + sizeof_meta, ?s3))"
    by (simp add: mymalloc_def a8 gfb si bindE_def del: fun_upd_apply)
  then have mm: "mymalloc 8 s = Some (Inr (?f + 8, ?s3))"
    by (simp only: sizeof_meta_def)
  have ur: "unat ?r = unat ?f + 16"
  proof -
    have "unat (?f + 16) = unat ?f + unat (16 :: 64 word)"
      using end_ big b64 by (intro unat_plus_small) simp
    then show ?thesis by (simp add: sizeof_meta_def add.assoc)
  qed
  have mr: "mem ?s3 ?r = set_descriptor_w (?C - 8)"
    using e(3) by simp
  have "unat ((?C - 8) div 8) = unat ?U - 2"
    using sub uC big by (simp add: unat_div)
  then have off: "unat (offset_w (mem ?s3 ?r)) = unat ?U - 2"
    by (simp only: mr offset_w_set_descriptor)
  have "tail_free ?s3"
    unfolding tail_free_def
    using base rf hf lim end_ big ur off mr by simp
  moreover have "first_free ?s3 = ?r" by simp
  ultimately show ?thesis
    using mm off by (intro exI [of _ ?s3]) simp
qed

lemma run_mallocs_tail:
  "tail_free s \<Longrightarrow> 8 + 2 * n < unat (offset_w (mem s (first_free s))) \<Longrightarrow>
   \<exists>ps' s'. run (replicate n (Malloc 8)) ps s = Some (Inr (ps', s')) \<and>
     num_brk_increase_calls s' = num_brk_increase_calls s"
proof (induction n arbitrary: s ps)
  case 0
  then show ?case by simp
next
  case (Suc n)
  from Suc.prems have big: "8 < unat (offset_w (mem s (first_free s)))" by simp
  from mymalloc_8_tail [OF Suc.prems(1) big] obtain s1 where
    m: "mymalloc 8 s = Some (Inr (first_free s + 8, s1))" and t1: "tail_free s1"
    and n1: "num_brk_increase_calls s1 = num_brk_increase_calls s"
    and u1: "unat (offset_w (mem s1 (first_free s1))) = unat (offset_w (mem s (first_free s))) - 2"
    by blast
  from Suc.prems(2) u1 have "8 + 2 * n < unat (offset_w (mem s1 (first_free s1)))" by simp
  from Suc.IH [OF t1 this, of "ps @ [first_free s + 8]"] obtain ps' s' where
    "run (replicate n (Malloc 8)) (ps @ [first_free s + 8]) s1 = Some (Inr (ps', s'))"
    and "num_brk_increase_calls s' = num_brk_increase_calls s1" by blast
  then show ?case using m n1 by simp
qed

text \<open>The first allocation of 8 bytes of a fresh process opens one page.\<close>

lemma first_malloc_8:
  assumes H: "H \<noteq> 0" and res: "unat H + unat M < 18446744073709551616"
    and M: "4096 \<le> unat M"
  shows "\<exists>s1. mymalloc 8 (init_state m0 H M) = Some (Inr (H + 8, s1)) \<and> tail_free s1 \<and>
    num_brk_increase_calls s1 = 1 \<and> unat (offset_w (mem s1 (first_free s1))) = 510"
proof -
  let ?s = "init_state m0 H M"
  have inc: "(4096 :: size_t) = page_request 8 * PAGE_SIZE"
    by (simp add: page_request_def PAGE_SIZE_def sizeof_meta_def)
  have hb: "unat (heap ?s) \<le> unat (cur_brk ?s)" by (simp add: init_state_def)
  have pos: "unat (4096 :: size_t) \<noteq> 0" by simp
  have fit: "unat (cur_brk ?s) + unat (4096 :: size_t) \<le> unat (heap ?s) + unat (max_brk_size ?s)"
    using M by (simp add: init_state_def)
  have res': "unat (heap ?s) + unat (max_brk_size ?s) < 18446744073709551616"
    using res by (simp add: init_state_def)
  note g = expand_heap_grow [OF hb inc pos fit res']
  have uH: "unat (H + 4096) = unat H + 4096"
    using g(2) by (simp add: init_state_def)
  define s1 where "s1 =
    ?s\<lparr>num_brk_increase_calls := num_brk_increase_calls ?s + 1,
       mem := (\<lambda>x. if cur_brk ?s \<le> x \<and> x < cur_brk ?s + 4096 then poison else mem ?s x)
                (cur_brk ?s := set_descriptor_w 4096),
       cur_brk := cur_brk ?s + 4096,
       first_free := cur_brk ?s, base_block := H\<rparr>"
  have p1: "mem s1 H = set_descriptor_w 4096" "cur_brk s1 = H + 4096" "heap s1 = H"
    "base_block s1 = H" "recent_freed s1 = [NULL, NULL, NULL, NULL, NULL]"
    "num_brk_increase_calls s1 = 1" "max_brk_size s1 = M"
    by (simp_all add: s1_def init_state_def)
  have he: "heap_expand 8 ?s = block_split H 8 s1"
    unfolding heap_expand_def g(1) s1_def
    by (simp add: bindE_def) (simp add: init_state_def)
  have acc: "accessible s1 H"
    using uH by (simp add: accessible_def p1)
  have d: "offset_w (set_descriptor_w 4096) = 512"
    by (simp add: offset_w_set_descriptor)
  have C: "(4088 :: size_t) = get_data_size_w (mem s1 H)"
    by (simp add: get_data_size_w_def d p1)
  have gt: "sizeof_meta + ALIGNMENT < (4088 :: size_t) - 8"
    by (simp add: sizeof_meta_def ALIGNMENT_def)
  have inside: "unat H + 8 + unat (4088 :: size_t) \<le> unat (cur_brk s1)"
    using uH by (simp add: p1)
  have le: "(8 :: size_t) \<le> 4088" by simp
  note e = split_block_effect [OF acc C le gt al8_8 inside refl]
  define r where "r = H + sizeof_meta + 8"
  define s2 where "s2 =
    s1\<lparr>mem := (mem s1)(H := set_descriptor_w (8 + sizeof_meta),
                      r := set_descriptor_w (4088 - 8)),
       first_free := r\<rparr>"
  have sb: "split_block H 8 s1 = Inr (H, s2)"
    unfolding s2_def r_def by (rule e(1))
  have bs: "block_split H 8 s1 = Inr (H, s2)"
    unfolding block_split_def get_data_size_acc [OF acc] C [symmetric]
    using gt by (simp add: bindE_def sb)
  have gfb: "get_free_block 8 ?s = Some (Inr (H, s2))"
    unfolding get_free_block_def he bs by (simp add: init_state_def)
  have rH: "r \<noteq> H" using e(3) by (simp add: r_def)
  have p2: "mem s2 H = set_descriptor_w (8 + sizeof_meta)" "mem s2 r = set_descriptor_w 4080"
    "first_free s2 = r" "cur_brk s2 = H + 4096" "heap s2 = H"
    "base_block s2 = H" "recent_freed s2 = [NULL, NULL, NULL, NULL, NULL]"
    "num_brk_increase_calls s2 = 1" "max_brk_size s2 = M"
    using rH by (simp_all add: s2_def p1)
  define s3 where "s3 = s2\<lparr>mem := (mem s2)(H := set_inuse_w (mem s2 H))\<rparr>"
  have acc2: "accessible s2 H"
    using uH by (simp add: accessible_def p2)
  have si: "set_inuse H s2 = Inr s3" unfolding s3_def using acc2 by (rule set_inuse_acc)
  have a8: "align 8 = 8" by (simp add: align_def ALIGNMENT_def)
  have mm: "mymalloc 8 ?s = Some (Inr (H + 8, s3))"
    unfolding mymalloc_def a8 gfb by (simp add: si bindE_def sizeof_meta_def)
  have ur: "unat r = unat H + 16"
  proof -
    have "unat (H + 16) = unat H + unat (16 :: 64 word)"
      using uH unat_lt64 [of "H + 4096"] by (intro unat_plus_small) simp
    then show ?thesis by (simp add: r_def sizeof_meta_def add.assoc)
  qed
  have p3: "mem s3 r = set_descriptor_w 4080"
    "first_free s3 = r" "cur_brk s3 = H + 4096" "heap s3 = H"
    "base_block s3 = H" "recent_freed s3 = [NULL, NULL, NULL, NULL, NULL]"
    "num_brk_increase_calls s3 = 1" "max_brk_size s3 = M"
    using rH by (simp_all add: s3_def p2)
  have off: "unat (offset_w (mem s3 r)) = 510"
    by (simp only: p3 offset_w_set_descriptor) simp
  have "tail_free s3"
    unfolding tail_free_def
    using H M uH ur off by (simp add: p3 NULL_def)
  then show ?thesis
    using mm off p3 by (intro exI [of _ s3]) simp
qed

lemma ceil_div_4096:
  "((k :: nat) + 4095) div 4096 = (if k mod 4096 = 0 then k div 4096 else k div 4096 + 1)"
proof -
  define q where "q = k div 4096"
  define r where "r = k mod 4096"
  have k: "k = 4096 * q + r" by (simp add: q_def r_def)
  have r: "r < 4096" by (simp add: r_def)
  show ?thesis
  proof (cases "r = 0")
    case True
    have "(k + 4095) div 4096 = q"
    proof (rule div_nat_eqI)
      show "4096 * q \<le> k + 4095" using k by simp
      show "k + 4095 < 4096 * Suc q" using k True by simp
    qed
    with True show ?thesis by (simp add: q_def r_def)
  next
    case False
    have "(k + 4095) div 4096 = q + 1"
    proof (rule div_nat_eqI)
      show "4096 * (q + 1) \<le> k + 4095" using k False by simp
      show "k + 4095 < 4096 * Suc (q + 1)" using k r by simp
    qed
    with False show ?thesis by (simp add: q_def r_def)
  qed
qed

lemma spec_pages_floor:
  "(n + 8) div 4096 + 1 =
     (if (n + 8) mod 4096 = 0 then spec_pages n + 1 else spec_pages n)"
  using ceil_div_4096 [of "n + 8"] by (simp add: spec_pages_def add.assoc)

lemma malloc_128_one_growth:
  assumes H: "H \<noteq> 0" and res: "unat H + unat M < 18446744073709551616"
    and M: "4096 \<le> unat M"
  shows "\<exists>ps s'. run (replicate 128 (Malloc 8)) [] (init_state m0 H M) = Some (Inr (ps, s')) \<and>
    num_brk_increase_calls s' = 1"
proof -
  from first_malloc_8 [OF H res M] obtain s1 where
    m: "mymalloc 8 (init_state m0 H M) = Some (Inr (H + 8, s1))" and t: "tail_free s1"
    and n: "num_brk_increase_calls s1 = 1"
    and u: "unat (offset_w (mem s1 (first_free s1))) = 510"
    by blast
  have "8 + 2 * 127 < unat (offset_w (mem s1 (first_free s1)))" using u by simp
  from run_mallocs_tail [OF t this, of "[] @ [H + 8]"] obtain ps' s' where
    r: "run (replicate 127 (Malloc 8)) ([] @ [H + 8]) s1 = Some (Inr (ps', s'))"
    and n': "num_brk_increase_calls s' = num_brk_increase_calls s1" by blast
  have rep: "replicate 128 (Malloc 8) = Malloc 8 # replicate 127 (Malloc 8)"
  proof -
    have "(128 :: nat) = Suc 127" by simp
    then show ?thesis by (simp only: replicate_Suc)
  qed
  have "run (Malloc 8 # replicate 127 (Malloc 8)) [] (init_state m0 H M) =
      run (replicate 127 (Malloc 8)) ([] @ [H + 8]) s1"
    by (simp only: run.simps m option.case sum.case prod.case)
  then have "run (replicate 128 (Malloc 8)) [] (init_state m0 H M) = Some (Inr (ps', s'))"
    by (simp only: rep r)
  moreover have "num_brk_increase_calls s' = 1" by (simp only: n n')
  ultimately show ?thesis by blast
qed

text \<open>
  Claim C6, as the code has it: for every growth request of \<open>min_bytes\<close> that fits into
  the reserved heap, \<open>expand_heap\<close> moves the break exactly once, by
  \<open>(min_bytes + header_size) div page_size + 1\<close> whole pages (the minimal number of
  pages that cover \<open>min_bytes\<close> plus a header, and one page more than that when
  \<open>min_bytes + header_size\<close> is a multiple of the page size), and makes the new span one
  free block that ends at the new break; consequently 128 allocations of 8 bytes on a
  fresh process call for growth exactly once.
\<close>

theorem expand_heap_one_growth:
  assumes "unat (heap s) \<le> unat (cur_brk s)"
    and "unat (cur_brk s) + ((unat a + 8) div 4096 + 1) * 4096 \<le>
         unat (heap s) + unat (max_brk_size s)"
    and "unat (heap s) + unat (max_brk_size s) < 2 ^ 64"
  shows "(\<exists>s'. expand_heap a s = Inr (cur_brk s, s') \<and>
       unat (cur_brk s') = unat (cur_brk s) + ((unat a + 8) div 4096 + 1) * 4096 \<and>
       num_brk_increase_calls s' = num_brk_increase_calls s + 1 \<and>
       num_brk_decrease_calls s' = num_brk_decrease_calls s \<and>
       check_free (cur_brk s) s' = Inr True \<and>
       get_next_meta (cur_brk s) s' = Inr (cur_brk s')) \<and>
     (unat a + 8) div 4096 + 1 =
       (if (unat a + 8) mod 4096 = 0 then spec_pages (unat a) + 1 else spec_pages (unat a)) \<and>
     (\<forall>m0 H M. H \<noteq> 0 \<and> unat H + unat M < 2 ^ 64 \<and> 4096 \<le> unat M \<longrightarrow>
       (\<exists>ps s'. run (replicate 128 (Malloc 8)) [] (init_state m0 H M) = Some (Inr (ps, s')) \<and>
          num_brk_increase_calls s' = 1))"
proof -
  define inc where "inc = page_request a * PAGE_SIZE"
  have res: "unat (heap s) + unat (max_brk_size s) < 18446744073709551616"
    using assms(3) by simp
  have "((unat a + 8) div 4096 + 1) * 4096 < 18446744073709551616"
    using assms(2) res by simp
  then have ui: "unat inc = ((unat a + 8) div 4096 + 1) * 4096"
    unfolding inc_def by (rule page_bytes_nat)
  have pos: "unat inc \<noteq> 0" using ui by simp
  have fit: "unat (cur_brk s) + unat inc \<le> unat (heap s) + unat (max_brk_size s)"
    using assms(2) ui by simp
  note g = expand_heap_grow [OF assms(1) inc_def pos fit res]
  define s' where "s' =
    s\<lparr>num_brk_increase_calls := num_brk_increase_calls s + 1,
      mem := (\<lambda>x. if cur_brk s \<le> x \<and> x < cur_brk s + inc then poison else mem s x)
               (cur_brk s := set_descriptor_w inc),
      cur_brk := cur_brk s + inc,
      first_free := cur_brk s\<rparr>"
  have e: "expand_heap a s = Inr (cur_brk s, s')" unfolding s'_def by (rule g(1))
  have p: "cur_brk s' = cur_brk s + inc" "heap s' = heap s"
    "mem s' (cur_brk s) = set_descriptor_w inc"
    "num_brk_increase_calls s' = num_brk_increase_calls s + 1"
    "num_brk_decrease_calls s' = num_brk_decrease_calls s"
    by (simp_all add: s'_def)
  have acc: "accessible s' (cur_brk s)"
    using assms(1) g(2) g(3) by (simp add: accessible_def p)
  have "unat inc mod 8 = 0" unfolding inc_def by (rule al8_page_bytes)
  then have "inc div 8 * 8 = inc" by (rule div8_mul8)
  then have nx: "get_next_meta (cur_brk s) s' = Inr (cur_brk s')"
    using acc by (simp add: get_next_meta_acc p get_next_meta_w_def offset_w_set_descriptor
        sizeof_meta_def)
  have cf: "check_free (cur_brk s) s' = Inr True"
    using acc by (simp add: check_free_acc p)
  have "unat (cur_brk s') = unat (cur_brk s) + ((unat a + 8) div 4096 + 1) * 4096"
    using g(2) ui by (simp add: p)
  then have first: "\<exists>s'. expand_heap a s = Inr (cur_brk s, s') \<and>
       unat (cur_brk s') = unat (cur_brk s) + ((unat a + 8) div 4096 + 1) * 4096 \<and>
       num_brk_increase_calls s' = num_brk_increase_calls s + 1 \<and>
       num_brk_decrease_calls s' = num_brk_decrease_calls s \<and>
       check_free (cur_brk s) s' = Inr True \<and>
       get_next_meta (cur_brk s) s' = Inr (cur_brk s')"
    using e nx cf p(4) p(5) by blast
  have third: "\<forall>m0 H M. H \<noteq> 0 \<and> unat H + unat M < 2 ^ 64 \<and> 4096 \<le> unat M \<longrightarrow>
       (\<exists>ps s'. run (replicate 128 (Malloc 8)) [] (init_state m0 H M) = Some (Inr (ps, s')) \<and>
          num_brk_increase_calls s' = 1)"
    using malloc_128_one_growth by simp
  show ?thesis
    using first spec_pages_floor [of "unat a"] third by blast
qed

theorem expand_heap_one_growth_witness:
  "unat (heap fresh_state) \<le> unat (cur_brk fresh_state) \<and>
   (\<exists>s'. expand_heap 8 fresh_state = Inr (0x10000, s') \<and>
      unat (cur_brk s') = 0x11000 \<and> num_brk_increase_calls s' = 1 \<and>
      check_free 0x10000 s' = Inr True \<and> get_next_meta 0x10000 s' = Inr (cur_brk s')) \<and>
   (\<exists>ps s'. run (replicate 128 (Malloc 8)) [] fresh_state = Some (Inr (ps, s')) \<and>
      num_brk_increase_calls s' = 1)"
proof -
  have h1: "unat (heap fresh_state) \<le> unat (cur_brk fresh_state)"
    by (simp add: fresh_state_def init_state_def)
  have h2: "unat (cur_brk fresh_state) + ((unat (8 :: size_t) + 8) div 4096 + 1) * 4096 \<le>
         unat (heap fresh_state) + unat (max_brk_size fresh_state)"
    by (simp add: fresh_state_def init_state_def)
  have h3: "unat (heap fresh_state) + unat (max_brk_size fresh_state) < 2 ^ 64"
    by (simp add: fresh_state_def init_state_def)
  have h4: "(0x10000 :: ptr) \<noteq> 0 \<and> unat (0x10000 :: ptr) + unat (0x8000000 :: size_t) < 2 ^ 64 \<and>
    4096 \<le> unat (0x8000000 :: size_t)" by simp
  note t = expand_heap_one_growth [OF h1 h2 h3]
  from t h4 have a: "\<exists>ps s'. run (replicate 128 (Malloc 8)) []
      (init_state (\<lambda>_. poison) 0x10000 0x8000000) = Some (Inr (ps, s')) \<and>
      num_brk_increase_calls s' = 1"
    by blast
  from t obtain s' where
    b: "expand_heap 8 fresh_state = Inr (cur_brk fresh_state, s')"
      "unat (cur_brk s') =
         unat (cur_brk fresh_state) + ((unat (8 :: size_t) + 8) div 4096 + 1) * 4096"
      "num_brk_increase_calls s' = num_brk_increase_calls fresh_state + 1"
      "check_free (cur_brk fresh_state) s' = Inr True"
      "get_next_meta (cur_brk fresh_state) s' = Inr (cur_brk s')"
    by blast
  have c: "cur_brk fresh_state = 0x10000" "num_brk_increase_calls fresh_state = 0"
    by (simp_all add: fresh_state_def init_state_def)
  have "expand_heap 8 fresh_state = Inr (0x10000, s') \<and>
      unat (cur_brk s') = 0x11000 \<and> num_brk_increase_calls s' = 1 \<and>
      check_free 0x10000 s' = Inr True \<and> get_next_meta 0x10000 s' = Inr (cur_brk s')"
    using b by (simp add: c)
  then have "\<exists>s'. expand_heap 8 fresh_state = Inr (0x10000, s') \<and>
      unat (cur_brk s') = 0x11000 \<and> num_brk_increase_calls s' = 1 \<and>
      check_free 0x10000 s' = Inr True \<and> get_next_meta 0x10000 s' = Inr (cur_brk s')"
    by (rule exI)
  then show ?thesis
    using h1 a unfolding fresh_state_def by (intro conjI) assumption+
qed

subsection \<open>The block chain\<close>

lemma next_unat:
  assumes "unat a + 8 * unat (offset_w d) \<le> unat (b :: 64 word)"
  shows "unat (get_next_meta_w a d) = unat a + 8 * unat (offset_w d)"
proof -
  have b: "unat b < 18446744073709551616" by (rule unat_lt64)
  have "unat (offset_w d) * unat (8 :: 64 word) < 2 ^ LENGTH(64)"
    using assms b by simp
  then have m: "unat (offset_w d * 8) = unat (offset_w d) * 8"
    using unat_mult_lem [of "offset_w d" "8 :: 64 word"] by simp
  then have "unat (a + offset_w d * 8) = unat a + unat (offset_w d * 8)"
    using assms b by (intro unat_plus_small) simp
  then show ?thesis using m by (simp add: get_next_meta_w_def sizeof_meta_def)
qed

lemma chain_bounds:
  "chain m a bs b \<Longrightarrow>
   unat a \<le> unat b \<and>
   (\<forall>x\<in>set bs. unat a \<le> unat x \<and> offset_w (m x) \<noteq> 0 \<and>
      unat x + 8 * unat (offset_w (m x)) \<le> unat b)"
proof (induction bs arbitrary: a)
  case Nil
  then show ?case by simp
next
  case (Cons x xs)
  then have xa: "x = a" and nz: "offset_w (m a) \<noteq> 0"
    and le: "unat a + 8 * unat (offset_w (m a)) \<le> unat b"
    and rest: "chain m (get_next_meta_w a (m a)) xs b" by simp_all
  have n: "unat (get_next_meta_w a (m a)) = unat a + 8 * unat (offset_w (m a))"
    using le by (rule next_unat)
  from Cons.IH [OF rest] n xa nz le show ?case by auto
qed

lemma chain_cong:
  "(\<forall>x\<in>set bs. offset_w (m' x) = offset_w (m x)) \<Longrightarrow> chain m' a bs b = chain m a bs b"
  by (induction bs arbitrary: a) (auto simp add: get_next_meta_w_def)

lemma chain_append:
  "chain m a (xs @ ys) b \<longleftrightarrow> (\<exists>c. chain m a xs c \<and> chain m c ys b)"
proof (induction xs arbitrary: a)
  case Nil
  then show ?case by simp
next
  case (Cons x xs)
  show ?case
  proof
    assume l: "chain m a ((x # xs) @ ys) b"
    then have xa: "x = a" and nz: "offset_w (m a) \<noteq> 0"
      and le: "unat a + 8 * unat (offset_w (m a)) \<le> unat b"
      and rest: "chain m (get_next_meta_w a (m a)) (xs @ ys) b" by simp_all
    from rest Cons.IH obtain c where c1: "chain m (get_next_meta_w a (m a)) xs c"
      and c2: "chain m c ys b" by blast
    have "unat (get_next_meta_w a (m a)) \<le> unat c" using chain_bounds [OF c1] by simp
    moreover have "unat (get_next_meta_w a (m a)) = unat a + 8 * unat (offset_w (m a))"
      using le by (rule next_unat)
    ultimately have "chain m a (x # xs) c" using xa nz c1 by simp
    with c2 show "\<exists>c. chain m a (x # xs) c \<and> chain m c ys b" by blast
  next
    assume "\<exists>c. chain m a (x # xs) c \<and> chain m c ys b"
    then obtain c where c1: "chain m a (x # xs) c" and c2: "chain m c ys b" by blast
    have "unat c \<le> unat b" using chain_bounds [OF c2] by simp
    moreover from c1 c2 have "chain m (get_next_meta_w a (m a)) (xs @ ys) b"
      using Cons.IH by auto
    ultimately show "chain m a ((x # xs) @ ys) b" using c1 by simp
  qed
qed

lemma chain_sum:
  "chain m a bs b \<Longrightarrow> sum_list (map (block_bytes m) bs) + unat a = unat b"
proof (induction bs arbitrary: a)
  case Nil
  then show ?case by simp
next
  case (Cons x xs)
  then have xa: "x = a"
    and le: "unat a + 8 * unat (offset_w (m a)) \<le> unat b"
    and rest: "chain m (get_next_meta_w a (m a)) xs b" by simp_all
  have "unat (get_next_meta_w a (m a)) = unat a + 8 * unat (offset_w (m a))"
    using le by (rule next_unat)
  with Cons.IH [OF rest] xa show ?case by (simp add: block_bytes_def)
qed

lemma blocks_chain: "blocks m a b = Some bs \<longleftrightarrow> chain m a bs b"
proof
  show "blocks m a b = Some bs \<Longrightarrow> chain m a bs b"
  proof (induction m a b arbitrary: bs rule: blocks.induct)
    case (1 m a b)
    show ?case
    proof (cases "a = b")
      case True
      with "1.prems" show ?thesis by (simp add: blocks.simps)
    next
      case False
      with "1.prems" have ok: "\<not> (offset_w (m a) = 0 \<or> unat b < unat a + 8 * unat (offset_w (m a)))"
        by (subst (asm) blocks.simps) (auto split: if_splits)
      with False "1.prems" obtain xs where r: "blocks m (get_next_meta_w a (m a)) b = Some xs"
        and bs: "bs = a # xs"
        by (subst (asm) blocks.simps) (auto split: if_splits)
      from "1.IH" [OF False ok r] ok bs show ?thesis by simp
    qed
  qed
next
  show "chain m a bs b \<Longrightarrow> blocks m a b = Some bs"
  proof (induction bs arbitrary: a)
    case Nil
    then show ?case by (simp add: blocks.simps)
  next
    case (Cons x xs)
    then have xa: "x = a" and nz: "offset_w (m a) \<noteq> 0"
      and le: "unat a + 8 * unat (offset_w (m a)) \<le> unat b"
      and rest: "chain m (get_next_meta_w a (m a)) xs b" by simp_all
    have "unat (offset_w (m a)) \<noteq> 0" using nz by (simp add: unat_eq_0)
    then have "unat a < unat b" using le by simp
    then have "a \<noteq> b" by auto
    with Cons.IH [OF rest] xa nz le show ?case
      by (subst blocks.simps) simp
  qed
qed

end
